theory Spec2Isabelle
  imports Main
begin

section \<open>The in-memory customer datastore (src/datastore/datastore.go)\<close>

text \<open>
  A shallow embedding of package \<^verbatim>\<open>datastore\<close>. Go's \<^verbatim>\<open>int\<close> is taken at 64 bits
  and modelled by \<^typ>\<open>int\<close>: the code only compares timestamps, stores positions that
  are lengths of the slice, and increments an event counter by one per distinct record
  id, so no property below depends on wrap-around. Maps are partial functions; a
  \<^verbatim>\<open>nil\<close> map and an empty map are both \<^term>\<open>Map.empty\<close> (ranging over either
  does nothing). The receiver \<^verbatim>\<open>ds\<close> is never \<^verbatim>\<open>nil\<close> in this program (it is
  \<^verbatim>\<open>&store\<close> everywhere), so the \<^verbatim>\<open>ds == nil\<close> guards are dead and are left out.
\<close>

subsection \<open>Data\<close>

text \<open>
  Modelled from the spec: the struct \<^verbatim>\<open>serve.Customer\<close> is declared in package
  \<^verbatim>\<open>serve\<close>, which is not among the sources. Its fields are those of the spec's
  Customer (id, attributes, events, lastUpdated), named and typed as datastore.go uses
  them: \<^verbatim>\<open>ID int\<close>, \<^verbatim>\<open>Attributes map[string]string\<close>, \<^verbatim>\<open>Events map[string]int\<close>,
  \<^verbatim>\<open>LastUpdated int\<close>.
\<close>

record Customer =
  ID :: int
  Attributes :: "string \<rightharpoonup> string"
  Events :: "string \<rightharpoonup> int"
  LastUpdated :: int

text \<open>
  Modelled from the spec: the struct \<^verbatim>\<open>stream.Record\<close> is declared in package
  \<^verbatim>\<open>stream\<close>, which is not among the sources. Its fields are those of the spec's
  Record (recordId, kind, name, userId, data, timestamp), named as datastore.go uses
  them: \<^verbatim>\<open>ID\<close>, \<^verbatim>\<open>Type\<close>, \<^verbatim>\<open>Name\<close>, \<^verbatim>\<open>UserID\<close>, \<^verbatim>\<open>Data\<close>,
  \<^verbatim>\<open>Timestamp\<close>. The field \<^verbatim>\<open>ID\<close> is named \<open>RecordID\<close> here, since \<open>ID\<close>
  is the customer's field; \<^verbatim>\<open>int(record.Timestamp)\<close> is the timestamp itself.
\<close>

record Record =
  RecordID :: string
  Type :: string
  Name :: string
  UserID :: string
  Data :: "string \<rightharpoonup> string"
  Timestamp :: int

text \<open>
  The slice \<^verbatim>\<open>customers\<close> holds pointers. Every pointer in it comes from one
  allocation in \<^verbatim>\<open>registerCustomer\<close> or \<^verbatim>\<open>registerCustomerFromRecord\<close>, and
  \<^verbatim>\<open>Delete\<close> moves the last pointer into the vacated slot before it truncates, so
  no two slots of the slice ever hold the same pointer. A write through
  \<^verbatim>\<open>ds.customers[pos]\<close> therefore changes exactly slot \<open>pos\<close>, and the slice is
  modelled as a list of customer values.
\<close>

record Datastore =
  customers :: "Customer list"
  customerLinks :: "int \<rightharpoonup> int"
  processedEventsMap :: "string \<rightharpoonup> bool"

text \<open>
  The errors the package returns, by their message, and the run-time panic of an index
  expression out of range.
\<close>

datatype error =
    ErrAtoi
  | ErrCustomerNotFound
  | ErrCustomerAlreadyExists
  | ErrCustomerDoesNotExist
  | PanicIndexOutOfRange

subsection \<open>\<^verbatim>\<open>strconv.Atoi\<close>\<close>

text \<open>
  The standard library's \<^verbatim>\<open>Atoi\<close> at 64 bits: an optional sign, then one or more
  decimal digits, and the value must fit \<^verbatim>\<open>int\<close>; anything else is an error.
\<close>

fun atoiDigits :: "string \<Rightarrow> int \<Rightarrow> int option" where
  "atoiDigits [] n = Some n"
| "atoiDigits (ch # s) n =
     (if 48 \<le> (of_char ch :: nat) \<and> (of_char ch :: nat) \<le> 57
      then atoiDigits s (n * 10 + (int (of_char ch) - 48))
      else None)"

definition atoiRange :: "int \<Rightarrow> int option" where
  "atoiRange v = (if - 9223372036854775808 \<le> v \<and> v \<le> 9223372036854775807 then Some v else None)"

definition Atoi :: "string \<Rightarrow> int option" where
  "Atoi s =
     (case s of
        [] \<Rightarrow> None
      | ch # rest \<Rightarrow>
          (if ch = CHR ''-'' then
             (if rest = [] then None
              else (case atoiDigits rest 0 of None \<Rightarrow> None | Some n \<Rightarrow> atoiRange (- n)))
           else if ch = CHR ''+'' then
             (if rest = [] then None
              else (case atoiDigits rest 0 of None \<Rightarrow> None | Some n \<Rightarrow> atoiRange n))
           else (case atoiDigits s 0 of None \<Rightarrow> None | Some n \<Rightarrow> atoiRange n)))"

subsection \<open>Ingestion\<close>

definition emptyStore :: Datastore where
  "emptyStore = \<lparr>customers = [], customerLinks = Map.empty, processedEventsMap = Map.empty\<rparr>"

definition isUserRegistered :: "Datastore \<Rightarrow> string \<Rightarrow> error + bool" where
  "isUserRegistered ds customerId =
     (case Atoi customerId of
        None \<Rightarrow> Inl ErrAtoi
      | Some userId \<Rightarrow>
          (case customerLinks ds userId of None \<Rightarrow> Inr False | Some _ \<Rightarrow> Inr True))"

definition registerCustomerFromRecord :: "Datastore \<Rightarrow> Record \<Rightarrow> Datastore \<times> (error + Customer)" where
  "registerCustomerFromRecord ds record =
     (case Atoi (UserID record) of
        None \<Rightarrow> (ds, Inl ErrAtoi)
      | Some userId \<Rightarrow>
          (let newCustomer = \<lparr>ID = userId, Attributes = Map.empty, Events = Map.empty,
                               LastUpdated = Timestamp record\<rparr>;
               customers' = customers ds @ [newCustomer]
           in (ds\<lparr>customers := customers',
                   customerLinks := (customerLinks ds)(userId \<mapsto> int (length customers') - 1)\<rparr>,
               Inr newCustomer)))"

text \<open>\<open>now\<close> is the value of \<^verbatim>\<open>time.Now().Unix()\<close> at the call.\<close>

definition registerCustomer ::
  "Datastore \<Rightarrow> int \<Rightarrow> int \<Rightarrow> (string \<rightharpoonup> string) \<Rightarrow> Datastore \<times> (error + Customer)" where
  "registerCustomer ds now cid attributes =
     (let newCustomer = \<lparr>ID = cid, Attributes = Map.empty ++ attributes, Events = Map.empty,
                          LastUpdated = now\<rparr>;
          customers' = customers ds @ [newCustomer]
      in (ds\<lparr>customers := customers',
              customerLinks := (customerLinks ds)(cid \<mapsto> int (length customers') - 1)\<rparr>,
          Inr newCustomer))"

text \<open>The write through the pointer \<^verbatim>\<open>customer\<close> read from slot \<open>pos\<close>.\<close>

definition setCustomer :: "Datastore \<Rightarrow> int \<Rightarrow> Customer \<Rightarrow> Datastore" where
  "setCustomer ds pos c = ds\<lparr>customers := (customers ds)[nat pos := c]\<rparr>"

text \<open>Lines 161 to 164: the watermark is raised, never lowered.\<close>

definition raiseLastUpdated :: "Customer \<Rightarrow> int \<Rightarrow> Customer" where
  "raiseLastUpdated customer ts =
     (if LastUpdated customer < ts then customer\<lparr>LastUpdated := ts\<rparr> else customer)"

text \<open>
  \<^verbatim>\<open>processRecord\<close>. A missing key of \<^verbatim>\<open>customerLinks\<close> reads as position 0; the
  index expression panics out of range. A duplicate event returns at line 140, before
  the watermark lines. The second component is the returned \<^verbatim>\<open>error\<close>
  (\<open>None\<close> is \<^verbatim>\<open>nil\<close>).
\<close>

definition processRecord :: "Datastore \<Rightarrow> Record \<Rightarrow> Datastore \<times> error option" where
  "processRecord ds record =
     (case Atoi (UserID record) of
        None \<Rightarrow> (ds, Some ErrAtoi)
      | Some customerId \<Rightarrow>
          (let pos = (case customerLinks ds customerId of None \<Rightarrow> 0 | Some p \<Rightarrow> p) in
           if pos < 0 \<or> int (length (customers ds)) \<le> pos then (ds, Some PanicIndexOutOfRange)
           else
             (let customer = customers ds ! nat pos in
              if Type record = ''event'' then
                (case processedEventsMap ds (RecordID record) of
                   Some _ \<Rightarrow> (ds, None)
                 | None \<Rightarrow>
                     (let customer1 = customer\<lparr>Events := (Events customer)(Name record \<mapsto>
                              (case Events customer (Name record) of None \<Rightarrow> 1 | Some n \<Rightarrow> n + 1))\<rparr>;
                          ds1 = ds\<lparr>processedEventsMap := (processedEventsMap ds)(RecordID record \<mapsto> True)\<rparr>
                      in (setCustomer ds1 pos (raiseLastUpdated customer1 (Timestamp record)), None)))
              else if Type record = ''attributes'' then
                (let customer1 =
                       (if LastUpdated customer \<le> Timestamp record
                        then customer\<lparr>Attributes := Attributes customer ++ Data record\<rparr>
                        else customer)
                 in (setCustomer ds pos (raiseLastUpdated customer1 (Timestamp record)), None))
              else (setCustomer ds pos (raiseLastUpdated customer (Timestamp record)), None))))"

text \<open>
  The body of the \<^verbatim>\<open>for record := range inputChannel\<close> loop of \<^verbatim>\<open>New\<close>, lines 32
  to 53. A result \<open>(store, None)\<close> goes on to the next record (also after
  \<^verbatim>\<open>continue\<close>); \<open>(store, Some err)\<close> is \<^verbatim>\<open>return nil, err\<close>, or the panic.
\<close>

definition New_step :: "Datastore \<Rightarrow> Record \<Rightarrow> Datastore \<times> error option" where
  "New_step store record =
     (case isUserRegistered store (UserID record) of
        Inl err \<Rightarrow> (store, None)
      | Inr exists \<Rightarrow>
          processRecord
            (if exists then store else fst (registerCustomerFromRecord store record))
            record)"

text \<open>The channel is a finite sequence of records, read to its end.\<close>

fun ingest :: "Datastore \<Rightarrow> Record list \<Rightarrow> error + Datastore" where
  "ingest store [] = Inr store"
| "ingest store (record # rest) =
     (case New_step store record of
        (store', None) \<Rightarrow> ingest store' rest
      | (store', Some err) \<Rightarrow> Inl err)"

definition New :: "Record list \<Rightarrow> error + Datastore" where
  "New inputChannel = ingest emptyStore inputChannel"

subsection \<open>The CRUD methods\<close>

text \<open>
  The loop of \<^verbatim>\<open>fixLinks\<close>, line 180 to 182. The two index expressions on the left
  are evaluated first, then the two assignments happen left to right. An index out of
  range stops the loop with the links written so far.
\<close>

function fixLinksLoop ::
  "Customer list \<Rightarrow> int \<Rightarrow> int \<Rightarrow> (int \<rightharpoonup> int) \<Rightarrow> (int \<rightharpoonup> int) \<times> error option" where
  "fixLinksLoop cs i j links =
     (if i < j then
        (if i < 0 \<or> int (length cs) \<le> j then (links, Some PanicIndexOutOfRange)
         else fixLinksLoop cs (i + 1) (j - 1)
                (links(ID (cs ! nat i) \<mapsto> i, ID (cs ! nat j) \<mapsto> j)))
      else (links, None))"
  by pat_completeness auto
termination
  by (relation "measure (\<lambda>(cs, i, j, links). nat (j - i))") auto

declare fixLinksLoop.simps [simp del]

definition fixLinks :: "Datastore \<Rightarrow> Datastore \<times> error option" where
  "fixLinks ds =
     (case fixLinksLoop (customers ds) 0 (int (length (customers ds)) - 1) (customerLinks ds) of
        (links, res) \<Rightarrow> (ds\<lparr>customerLinks := links\<rparr>, res))"

definition Get :: "Datastore \<Rightarrow> int \<Rightarrow> error + Customer" where
  "Get ds cid =
     (case customerLinks ds cid of
        None \<Rightarrow> Inl ErrCustomerNotFound
      | Some pos \<Rightarrow>
          (if pos < 0 \<or> int (length (customers ds)) \<le> pos then Inl PanicIndexOutOfRange
           else Inr (customers ds ! nat pos)))"

definition List :: "Datastore \<Rightarrow> int \<Rightarrow> int \<Rightarrow> error + Customer list" where
  "List ds page count = Inr (customers ds)"

definition Create ::
  "Datastore \<Rightarrow> int \<Rightarrow> int \<Rightarrow> (string \<rightharpoonup> string) \<Rightarrow> Datastore \<times> (error + Customer)" where
  "Create ds now cid attributes =
     (case customerLinks ds cid of
        Some _ \<Rightarrow> (ds, Inl ErrCustomerAlreadyExists)
      | None \<Rightarrow> registerCustomer ds now cid attributes)"

definition Update ::
  "Datastore \<Rightarrow> int \<Rightarrow> int \<Rightarrow> (string \<rightharpoonup> string) \<Rightarrow> Datastore \<times> (error + Customer)" where
  "Update ds now cid attributes =
     (case customerLinks ds cid of
        None \<Rightarrow> (ds, Inl ErrCustomerDoesNotExist)
      | Some pos \<Rightarrow>
          (if pos < 0 \<or> int (length (customers ds)) \<le> pos then (ds, Inl PanicIndexOutOfRange)
           else
             (let customer = customers ds ! nat pos;
                  customer' = customer\<lparr>Attributes := Attributes customer ++ attributes,
                                        LastUpdated := now\<rparr>
              in (setCustomer ds pos customer', Inr customer'))))"

text \<open>
  \<^verbatim>\<open>Delete\<close>: the link is deleted first, so it stays deleted when line 240 panics.
\<close>

definition Delete :: "Datastore \<Rightarrow> int \<Rightarrow> Datastore \<times> error option" where
  "Delete ds cid =
     (case customerLinks ds cid of
        None \<Rightarrow> (ds, Some ErrCustomerNotFound)
      | Some pos \<Rightarrow>
          (let ds1 = ds\<lparr>customerLinks := (customerLinks ds)(cid := None)\<rparr>;
               n = int (length (customers ds1))
           in if pos < 0 \<or> n \<le> pos then (ds1, Some PanicIndexOutOfRange)
              else fixLinks
                     (ds1\<lparr>customers :=
                            take (nat (n - 1))
                              ((customers ds1)[nat pos := customers ds1 ! nat (n - 1)])\<rparr>)))"

definition TotalCustomers :: "Datastore \<Rightarrow> error + int" where
  "TotalCustomers ds = Inr (int (length (customers ds)))"

subsection \<open>Concrete inputs\<close>

text \<open>The three records of the end-to-end ingestion scenario.\<close>

definition openEvent :: Record where
  "openEvent = \<lparr>RecordID = ''e1'', Type = ''event'', Name = ''open'', UserID = ''1'',
                 Data = Map.empty, Timestamp = 10\<rparr>"

definition redAttributes :: Record where
  "redAttributes = \<lparr>RecordID = [], Type = ''attributes'', Name = [], UserID = ''1'',
                     Data = [''color'' \<mapsto> ''red''], Timestamp = 5\<rparr>"

definition blueAttributes :: Record where
  "blueAttributes = \<lparr>RecordID = [], Type = ''attributes'', Name = [], UserID = ''1'',
                      Data = [''color'' \<mapsto> ''blue''], Timestamp = 20\<rparr>"

definition scenarioRecords :: "Record list" where
  "scenarioRecords = [openEvent, redAttributes, blueAttributes]"

text \<open>The store after \<open>openEvent\<close> alone has been ingested into the empty store.\<close>

definition afterOpen :: Datastore where
  "afterOpen =
     \<lparr>customers = [\<lparr>ID = 1, Attributes = Map.empty, Events = [''open'' \<mapsto> 1],
                      LastUpdated = 10\<rparr>],
      customerLinks = [1 \<mapsto> 0],
      processedEventsMap = [''e1'' \<mapsto> True]\<rparr>"

text \<open>The store after \<open>blueAttributes\<close>, stamped 1, alone has been ingested.\<close>

definition blueStore :: Datastore where
  "blueStore =
     \<lparr>customers = [\<lparr>ID = 1, Attributes = [''color'' \<mapsto> ''blue''], Events = Map.empty,
                      LastUpdated = 1\<rparr>],
      customerLinks = [1 \<mapsto> 0],
      processedEventsMap = Map.empty\<rparr>"

text \<open>
  The store after \<open>openEvent\<close> for user 2 and then \<open>blueAttributes\<close>, stamped 1, for
  user 1 have been ingested: record id \<open>e1\<close> is marked, customer 1 has watermark 1.
\<close>

definition dupStore :: Datastore where
  "dupStore =
     \<lparr>customers = [\<lparr>ID = 2, Attributes = Map.empty, Events = [''open'' \<mapsto> 1], LastUpdated = 10\<rparr>,
                   \<lparr>ID = 1, Attributes = [''color'' \<mapsto> ''blue''], Events = Map.empty, LastUpdated = 1\<rparr>],
      customerLinks = [2 \<mapsto> 0, 1 \<mapsto> 1],
      processedEventsMap = [''e1'' \<mapsto> True]\<rparr>"

text \<open>
  \<open>Create(1, {})\<close> and \<open>Create(2, {})\<close> on the empty store, the clock reading 100, and
  then \<open>Delete(1)\<close>.
\<close>

definition twoCustomers :: Datastore where
  "twoCustomers = fst (Create (fst (Create emptyStore 100 1 Map.empty)) 100 2 Map.empty)"

definition afterDelete :: Datastore where
  "afterDelete = fst (Delete twoCustomers 1)"

text \<open>Then \<open>Create(3, {})\<close> and \<open>Delete(2)\<close>.\<close>

definition staleStore :: Datastore where
  "staleStore = fst (Delete (fst (Create afterDelete 100 3 Map.empty)) 2)"

text \<open>A record whose user id is not a number.\<close>

definition badUser :: Record where
  "badUser = \<lparr>RecordID = ''e2'', Type = ''event'', Name = ''open'', UserID = ''abc'',
               Data = Map.empty, Timestamp = 30\<rparr>"

subsection \<open>Invariants\<close>

text \<open>Every link points into the slice: no index expression of the package can panic.\<close>

definition linksInBounds :: "Datastore \<Rightarrow> bool" where
  "linksInBounds ds =
     (\<forall>cid pos. customerLinks ds cid = Some pos \<longrightarrow> 0 \<le> pos \<and> pos < int (length (customers ds)))"

text \<open>
  Invariant I1: the links are exactly the inverse of the slice. Every stored customer's
  id is linked to its slot, and every link points at a slot holding a customer of that id.
\<close>

definition indexExact :: "Datastore \<Rightarrow> bool" where
  "indexExact ds =
     ((\<forall>p. p < length (customers ds) \<longrightarrow> customerLinks ds (ID (customers ds ! p)) = Some (int p)) \<and>
      (\<forall>cid pos. customerLinks ds cid = Some pos \<longrightarrow>
         0 \<le> pos \<and> pos < int (length (customers ds)) \<and> ID (customers ds ! nat pos) = cid))"

section \<open>Properties\<close>

subsection \<open>The branches of the ingestion step\<close>

lemma New_step_unparsed: "Atoi (UserID r) = None \<Longrightarrow> New_step s r = (s, None)"
  by (simp add: New_step_def isUserRegistered_def)

lemma New_step_registered:
  "Atoi (UserID r) = Some uid \<Longrightarrow> customerLinks s uid = Some pos \<Longrightarrow> New_step s r = processRecord s r"
  by (simp add: New_step_def isUserRegistered_def)

lemma New_step_unregistered:
  "Atoi (UserID r) = Some uid \<Longrightarrow> customerLinks s uid = None \<Longrightarrow>
   New_step s r = processRecord (fst (registerCustomerFromRecord s r)) r"
  by (simp add: New_step_def isUserRegistered_def)

lemma registerCustomerFromRecord_parsed:
  "Atoi (UserID r) = Some uid \<Longrightarrow>
   fst (registerCustomerFromRecord s r) =
     s\<lparr>customers := customers s @ [\<lparr>ID = uid, Attributes = Map.empty, Events = Map.empty, LastUpdated = Timestamp r\<rparr>],
       customerLinks := (customerLinks s)(uid \<mapsto> int (length (customers s)))\<rparr>"
  by (simp add: registerCustomerFromRecord_def Let_def)

text \<open>The position \<^verbatim>\<open>ds.customerLinks[customerId]\<close> reads: 0 for a missing key.\<close>

lemma processRecord_unparsed: "Atoi (UserID r) = None \<Longrightarrow> processRecord s r = (s, Some ErrAtoi)"
  by (simp add: processRecord_def)

lemma processRecord_panic:
  "\<lbrakk>Atoi (UserID r) = Some uid; (case customerLinks s uid of None \<Rightarrow> 0 | Some p \<Rightarrow> p) = pos;
    pos < 0 \<or> int (length (customers s)) \<le> pos\<rbrakk>
   \<Longrightarrow> processRecord s r = (s, Some PanicIndexOutOfRange)"
  by (simp add: processRecord_def Let_def)

lemma processRecord_event_dup:
  "\<lbrakk>Atoi (UserID r) = Some uid; (case customerLinks s uid of None \<Rightarrow> 0 | Some p \<Rightarrow> p) = pos;
    0 \<le> pos; pos < int (length (customers s));
    Type r = ''event''; processedEventsMap s (RecordID r) = Some b\<rbrakk>
   \<Longrightarrow> processRecord s r = (s, None)"
  by (simp add: processRecord_def Let_def)

lemma processRecord_event_fresh:
  "\<lbrakk>Atoi (UserID r) = Some uid; (case customerLinks s uid of None \<Rightarrow> 0 | Some p \<Rightarrow> p) = pos;
    0 \<le> pos; pos < int (length (customers s));
    Type r = ''event''; processedEventsMap s (RecordID r) = None\<rbrakk>
   \<Longrightarrow> processRecord s r =
        (s\<lparr>customers := (customers s)[nat pos :=
               raiseLastUpdated ((customers s ! nat pos)\<lparr>Events := (Events (customers s ! nat pos))(Name r \<mapsto>
                   (case Events (customers s ! nat pos) (Name r) of None \<Rightarrow> 1 | Some n \<Rightarrow> n + 1))\<rparr>) (Timestamp r)],
            processedEventsMap := (processedEventsMap s)(RecordID r \<mapsto> True)\<rparr>, None)"
  by (simp add: processRecord_def Let_def setCustomer_def)

lemma processRecord_attributes:
  "\<lbrakk>Atoi (UserID r) = Some uid; (case customerLinks s uid of None \<Rightarrow> 0 | Some p \<Rightarrow> p) = pos;
    0 \<le> pos; pos < int (length (customers s));
    Type r = ''attributes''\<rbrakk>
   \<Longrightarrow> processRecord s r =
        (s\<lparr>customers := (customers s)[nat pos :=
               raiseLastUpdated (if LastUpdated (customers s ! nat pos) \<le> Timestamp r
                  then (customers s ! nat pos)\<lparr>Attributes := Attributes (customers s ! nat pos) ++ Data r\<rparr>
                  else customers s ! nat pos) (Timestamp r)]\<rparr>, None)"
  by (simp add: processRecord_def Let_def setCustomer_def)

lemma processRecord_other:
  "\<lbrakk>Atoi (UserID r) = Some uid; (case customerLinks s uid of None \<Rightarrow> 0 | Some p \<Rightarrow> p) = pos;
    0 \<le> pos; pos < int (length (customers s));
    Type r \<noteq> ''event''; Type r \<noteq> ''attributes''\<rbrakk>
   \<Longrightarrow> processRecord s r =
        (s\<lparr>customers := (customers s)[nat pos := raiseLastUpdated (customers s ! nat pos) (Timestamp r)]\<rparr>, None)"
  by (simp add: processRecord_def Let_def setCustomer_def)

text \<open>Every outcome of \<^verbatim>\<open>processRecord\<close>, by the branch taken.\<close>

lemma processRecord_outcomes:
  obtains (unparsed) "Atoi (UserID r) = None" "processRecord s r = (s, Some ErrAtoi)"
  | (panic) uid where "Atoi (UserID r) = Some uid" "processRecord s r = (s, Some PanicIndexOutOfRange)"
      "(case customerLinks s uid of None \<Rightarrow> 0 | Some p \<Rightarrow> p) < 0 \<or>
       int (length (customers s)) \<le> (case customerLinks s uid of None \<Rightarrow> 0 | Some p \<Rightarrow> p)"
  | (duplicate) uid b where "Atoi (UserID r) = Some uid" "Type r = ''event''"
      "processedEventsMap s (RecordID r) = Some b" "processRecord s r = (s, None)"
  | (applied) uid pos c where "Atoi (UserID r) = Some uid"
      "(case customerLinks s uid of None \<Rightarrow> 0 | Some p \<Rightarrow> p) = pos"
      "0 \<le> pos" "pos < int (length (customers s))"
      "Type r \<noteq> ''event''"
      "processRecord s r = (s\<lparr>customers := (customers s)[nat pos := raiseLastUpdated c (Timestamp r)]\<rparr>, None)"
      "Events c = Events (customers s ! nat pos)" "ID c = ID (customers s ! nat pos)"
      "LastUpdated c = LastUpdated (customers s ! nat pos)"
  | (counted) uid pos where "Atoi (UserID r) = Some uid"
      "(case customerLinks s uid of None \<Rightarrow> 0 | Some p \<Rightarrow> p) = pos"
      "0 \<le> pos" "pos < int (length (customers s))"
      "Type r = ''event''" "processedEventsMap s (RecordID r) = None"
      "processRecord s r =
        (s\<lparr>customers := (customers s)[nat pos :=
               raiseLastUpdated ((customers s ! nat pos)\<lparr>Events := (Events (customers s ! nat pos))(Name r \<mapsto>
                   (case Events (customers s ! nat pos) (Name r) of None \<Rightarrow> 1 | Some n \<Rightarrow> n + 1))\<rparr>) (Timestamp r)],
            processedEventsMap := (processedEventsMap s)(RecordID r \<mapsto> True)\<rparr>, None)"
proof (cases "Atoi (UserID r)")
  case None
  then show ?thesis using unparsed processRecord_unparsed by blast
next
  case (Some uid)
  define pos where "pos = (case customerLinks s uid of None \<Rightarrow> 0 | Some p \<Rightarrow> p)"
  show ?thesis
  proof (cases "pos < 0 \<or> int (length (customers s)) \<le> pos")
    case True
    with processRecord_panic[OF Some pos_def[symmetric]] panic[OF Some] show ?thesis
      by (simp add: pos_def)
  next
    case False
    then have b: "0 \<le> pos" "pos < int (length (customers s))" by auto
    show ?thesis
    proof (cases "Type r = ''event''")
      case True
      show ?thesis
      proof (cases "processedEventsMap s (RecordID r)")
        case None
        from processRecord_event_fresh[OF Some pos_def[symmetric] b True None]
        show ?thesis using counted[OF Some pos_def[symmetric] b True None] by blast
      next
        case (Some bb)
        from processRecord_event_dup[OF \<open>Atoi (UserID r) = Some uid\<close> pos_def[symmetric] b True Some]
        show ?thesis using duplicate[OF \<open>Atoi (UserID r) = Some uid\<close> True Some] by blast
      qed
    next
      case notev: False
      show ?thesis
      proof (cases "Type r = ''attributes''")
        case True
        from processRecord_attributes[OF Some pos_def[symmetric] b True]
        show ?thesis
          using applied[OF Some pos_def[symmetric] b notev,
              of "if LastUpdated (customers s ! nat pos) \<le> Timestamp r
                  then (customers s ! nat pos)\<lparr>Attributes := Attributes (customers s ! nat pos) ++ Data r\<rparr>
                  else customers s ! nat pos"]
          by simp
      next
        case False
        from processRecord_other[OF Some pos_def[symmetric] b notev False]
        show ?thesis
          using applied[OF Some pos_def[symmetric] b notev, of "customers s ! nat pos"]
          by simp
      qed
    qed
  qed
qed


lemma processRecord_frame:
  "customerLinks (fst (processRecord s r)) = customerLinks s \<and>
   length (customers (fst (processRecord s r))) = length (customers s)"
  by (cases rule: processRecord_outcomes[of r s]) simp_all



lemma processRecord_error:
  "processRecord s r = (s1, Some err) \<Longrightarrow> s1 = s \<and> (err = ErrAtoi \<and> Atoi (UserID r) = None \<or>
     err = PanicIndexOutOfRange \<and> (\<exists>uid. Atoi (UserID r) = Some uid \<and>
       ((case customerLinks s uid of None \<Rightarrow> 0 | Some p \<Rightarrow> p) < 0 \<or>
       int (length (customers s)) \<le> (case customerLinks s uid of None \<Rightarrow> 0 | Some p \<Rightarrow> p))))"
  by (cases rule: processRecord_outcomes[of r s]) auto



lemma registered_in_bounds:
  "Atoi (UserID r) = Some uid \<Longrightarrow>
   customerLinks (fst (registerCustomerFromRecord s r)) uid = Some (int (length (customers s))) \<and>
   int (length (customers s)) < int (length (customers (fst (registerCustomerFromRecord s r))))"
  by (simp add: registerCustomerFromRecord_parsed)

text \<open>The loop body fails only by the panic, only for a registered user whose link is out of range.\<close>

lemma New_step_error:
  assumes "New_step s r = (s1, Some err)"
  shows "err = PanicIndexOutOfRange \<and> s1 = s \<and>
         (\<exists>uid pos. Atoi (UserID r) = Some uid \<and> customerLinks s uid = Some pos \<and>
            (pos < 0 \<or> int (length (customers s)) \<le> pos))"
proof (cases "Atoi (UserID r)")
  case None
  with assms show ?thesis by (simp add: New_step_unparsed)
next
  case (Some uid)
  show ?thesis
  proof (cases "customerLinks s uid")
    case None
    let ?s' = "fst (registerCustomerFromRecord s r)"
    from assms Some None have "processRecord ?s' r = (s1, Some err)"
      by (simp add: New_step_unregistered)
    from processRecord_error[OF this] registered_in_bounds[OF Some, of s] Some
    show ?thesis by auto
  next
    case link: (Some pos)
    from assms Some link have "processRecord s r = (s1, Some err)"
      by (simp add: New_step_registered)
    from processRecord_error[OF this] Some link show ?thesis by auto
  qed
qed








subsection \<open>Evaluation on concrete stores\<close>

text \<open>The definitions unfolded to run ingestion on concrete records.\<close>

lemmas ingest_eval =
  New_def emptyStore_def New_step_def isUserRegistered_def registerCustomerFromRecord_def
  processRecord_def setCustomer_def raiseLastUpdated_def Atoi_def atoiRange_def Let_def

text \<open>The definitions unfolded to run the CRUD methods on concrete stores.\<close>

lemmas crud_eval =
  Create_def registerCustomer_def Delete_def fixLinks_def Get_def emptyStore_def Let_def
  twoCustomers_def afterDelete_def

subsection \<open>Ingestion never fails\<close>

text \<open>
  Ingestion keeps every link inside the slice, so the loop body never fails from a store
  that ingestion built.
\<close>

lemma linksInBounds_emptyStore: "linksInBounds emptyStore"
  by (simp add: linksInBounds_def emptyStore_def)

lemma linksInBounds_register:
  assumes "linksInBounds s" "Atoi (UserID r) = Some uid"
  shows "linksInBounds (fst (registerCustomerFromRecord s r))"
  using assms(1) unfolding linksInBounds_def registerCustomerFromRecord_parsed[OF assms(2)]
  by (fastforce split: if_split_asm)

lemma linksInBounds_processRecord:
  "linksInBounds s \<Longrightarrow> linksInBounds (fst (processRecord s r))"
  by (simp add: linksInBounds_def processRecord_frame)

lemma linksInBounds_New_step:
  assumes "linksInBounds s"
  shows "snd (New_step s r) = None \<and> linksInBounds (fst (New_step s r))"
proof
  show "snd (New_step s r) = None"
  proof (cases "snd (New_step s r)")
    case None
    then show ?thesis .
  next
    case (Some err)
    then have "New_step s r = (fst (New_step s r), Some err)" by (simp add: prod_eq_iff)
    from New_step_error[OF this]
    obtain uid pos where "customerLinks s uid = Some pos" "pos < 0 \<or> int (length (customers s)) \<le> pos"
      by blast
    with assms show ?thesis by (fastforce simp add: linksInBounds_def)
  qed
next
  show "linksInBounds (fst (New_step s r))"
  proof (cases "Atoi (UserID r)")
    case None
    with assms show ?thesis by (simp add: New_step_unparsed)
  next
    case (Some uid)
    show ?thesis
    proof (cases "customerLinks s uid")
      case None
      from linksInBounds_processRecord[OF linksInBounds_register[OF assms Some]]
      show ?thesis by (simp add: New_step_unregistered[OF Some None])
    next
      case link: (Some pos)
      from linksInBounds_processRecord[OF assms]
      show ?thesis by (simp add: New_step_registered[OF Some link])
    qed
  qed
qed

lemma ingest_total:
  "linksInBounds s \<Longrightarrow> \<exists>s'. ingest s rs = Inr s' \<and> linksInBounds s'"
proof (induction rs arbitrary: s)
  case Nil
  then show ?case by simp
next
  case (Cons r rs)
  obtain s1 res where step: "New_step s r = (s1, res)" by (cases "New_step s r")
  with linksInBounds_New_step[OF Cons.prems, of r] have "res = None" "linksInBounds s1" by simp_all
  with Cons.IH[of s1] step show ?case by simp
qed

lemma ingest_append:
  "ingest s (xs @ ys) = (case ingest s xs of Inl e \<Rightarrow> Inl e | Inr s' \<Rightarrow> ingest s' ys)"
  by (induction xs arbitrary: s) (auto split: prod.split option.split)

subsection \<open>One record of a registered user\<close>

text \<open>The loop body on an attributes record of a registered user whose link is in range.\<close>

lemma New_step_attributes:
  assumes "Atoi (UserID r) = Some uid" "customerLinks s uid = Some pos"
    "0 \<le> pos" "pos < int (length (customers s))" "Type r = ''attributes''"
  shows "New_step s r =
        (s\<lparr>customers := (customers s)[nat pos :=
               raiseLastUpdated (if LastUpdated (customers s ! nat pos) \<le> Timestamp r
                  then (customers s ! nat pos)\<lparr>Attributes := Attributes (customers s ! nat pos) ++ Data r\<rparr>
                  else customers s ! nat pos) (Timestamp r)]\<rparr>, None)"
proof -
  from assms(2) have "(case customerLinks s uid of None \<Rightarrow> 0 | Some p \<Rightarrow> p) = pos" by simp
  from processRecord_attributes[OF assms(1) this assms(3,4,5)] show ?thesis
    by (simp add: New_step_registered[OF assms(1,2)])
qed

text \<open>An attributes record not older than the watermark is applied and moves the watermark.\<close>

lemma New_step_attributes_applied:
  assumes "Atoi (UserID r) = Some uid" "customerLinks s uid = Some pos"
    "0 \<le> pos" "pos < int (length (customers s))" "Type r = ''attributes''"
    "LastUpdated (customers s ! nat pos) \<le> Timestamp r"
  shows "\<exists>s'. New_step s r = (s', None) \<and> customerLinks s' = customerLinks s \<and>
           length (customers s') = length (customers s) \<and>
           Attributes (customers s' ! nat pos) = Attributes (customers s ! nat pos) ++ Data r \<and>
           LastUpdated (customers s' ! nat pos) = Timestamp r"
proof -
  from assms(3,4) have "nat pos < length (customers s)" by simp
  with New_step_attributes[OF assms(1-5)] assms(6) show ?thesis
    by (simp add: raiseLastUpdated_def)
qed

text \<open>An attributes record older than the watermark changes nothing.\<close>

lemma New_step_attributes_dropped:
  assumes "Atoi (UserID r) = Some uid" "customerLinks s uid = Some pos"
    "0 \<le> pos" "pos < int (length (customers s))" "Type r = ''attributes''"
    "Timestamp r < LastUpdated (customers s ! nat pos)"
  shows "New_step s r = (s, None)"
  using New_step_attributes[OF assms(1-5)] assms(6)
  by (simp add: raiseLastUpdated_def)

text \<open>The loop body on an event of a registered user whose record id is not marked yet.\<close>

lemma New_step_event_fresh:
  assumes "Atoi (UserID r) = Some uid" "customerLinks s uid = Some pos"
    "0 \<le> pos" "pos < int (length (customers s))" "Type r = ''event''"
    "processedEventsMap s (RecordID r) = None"
  shows "New_step s r =
        (s\<lparr>customers := (customers s)[nat pos :=
               raiseLastUpdated ((customers s ! nat pos)\<lparr>Events := (Events (customers s ! nat pos))(Name r \<mapsto>
                   (case Events (customers s ! nat pos) (Name r) of None \<Rightarrow> 1 | Some n \<Rightarrow> n + 1))\<rparr>) (Timestamp r)],
            processedEventsMap := (processedEventsMap s)(RecordID r \<mapsto> True)\<rparr>, None)"
proof -
  from assms(2) have "(case customerLinks s uid of None \<Rightarrow> 0 | Some p \<Rightarrow> p) = pos" by simp
  from processRecord_event_fresh[OF assms(1) this assms(3-6)] show ?thesis
    by (simp add: New_step_registered[OF assms(1,2)])
qed

subsection \<open>Watermarks\<close>

text \<open>Ingestion never lowers a watermark and never moves or renames a customer.\<close>

lemma processRecord_lastUpdated_mono:
  assumes "p < length (customers s)"
  shows "ID (customers (fst (processRecord s r)) ! p) = ID (customers s ! p) \<and>
         LastUpdated (customers s ! p) \<le> LastUpdated (customers (fst (processRecord s r)) ! p)"
  using assms
  by (cases rule: processRecord_outcomes[of r s])
     (simp_all add: nth_list_update raiseLastUpdated_def)

lemma registerCustomerFromRecord_keeps:
  "p < length (customers s) \<Longrightarrow>
   p < length (customers (fst (registerCustomerFromRecord s r))) \<and>
   customers (fst (registerCustomerFromRecord s r)) ! p = customers s ! p"
  by (simp add: registerCustomerFromRecord_def Let_def nth_append split: option.split)

lemma New_step_lastUpdated_mono:
  assumes "p < length (customers s)"
  shows "p < length (customers (fst (New_step s r))) \<and>
         ID (customers (fst (New_step s r)) ! p) = ID (customers s ! p) \<and>
         LastUpdated (customers s ! p) \<le> LastUpdated (customers (fst (New_step s r)) ! p)"
proof (cases "Atoi (UserID r)")
  case None
  with assms show ?thesis by (simp add: New_step_unparsed)
next
  case (Some uid)
  show ?thesis
  proof (cases "customerLinks s uid")
    case None
    let ?s' = "fst (registerCustomerFromRecord s r)"
    from registerCustomerFromRecord_keeps[OF assms, of r]
    have p: "p < length (customers ?s')" and same: "customers ?s' ! p = customers s ! p" by simp_all
    from processRecord_lastUpdated_mono[OF p, of r] p same show ?thesis
      by (simp add: New_step_unregistered[OF Some None] processRecord_frame)
  next
    case link: (Some pos)
    from processRecord_lastUpdated_mono[OF assms, of r] assms show ?thesis
      by (simp add: New_step_registered[OF Some link] processRecord_frame)
  qed
qed

lemma ingest_lastUpdated_mono:
  "ingest s rs = Inr s' \<Longrightarrow> p < length (customers s) \<Longrightarrow>
   p < length (customers s') \<and> ID (customers s' ! p) = ID (customers s ! p) \<and>
   LastUpdated (customers s ! p) \<le> LastUpdated (customers s' ! p)"
proof (induction rs arbitrary: s)
  case Nil
  then show ?case by simp
next
  case (Cons r rs)
  obtain s1 res where step: "New_step s r = (s1, res)" by (cases "New_step s r")
  with Cons.prems(1) have res: "res = None" and rest: "ingest s1 rs = Inr s'"
    by (simp_all split: option.split_asm)
  from New_step_lastUpdated_mono[OF Cons.prems(2), of r] step
  have p: "p < length (customers s1)" and one: "ID (customers s1 ! p) = ID (customers s ! p)"
    "LastUpdated (customers s ! p) \<le> LastUpdated (customers s1 ! p)"
    by simp_all
  from Cons.IH[OF rest p] one show ?case by simp
qed

lemma Update_customers:
  "customers (fst (Update s now cid attrs)) =
     (case customerLinks s cid of
        None \<Rightarrow> customers s
      | Some pos \<Rightarrow>
          if pos < 0 \<or> int (length (customers s)) \<le> pos then customers s
          else (customers s)[nat pos :=
                 (customers s ! nat pos)\<lparr>Attributes := Attributes (customers s ! nat pos) ++ attrs,
                                          LastUpdated := now\<rparr>])"
  by (simp add: Update_def setCustomer_def Let_def split: option.split)

subsection \<open>The index\<close>

text \<open>
  Under I1 an id is linked exactly when a customer with that id is stored, and
  \<^verbatim>\<open>Create\<close> keeps I1.
\<close>

lemma indexExact_emptyStore: "indexExact emptyStore"
  by (simp add: indexExact_def emptyStore_def)

lemma indexExact_stored:
  assumes "indexExact s"
  shows "customerLinks s cid \<noteq> None \<longleftrightarrow> (\<exists>c \<in> set (customers s). ID c = cid)"
proof
  assume "customerLinks s cid \<noteq> None"
  then obtain pos where "customerLinks s cid = Some pos" by blast
  with assms have "0 \<le> pos" "pos < int (length (customers s))" "ID (customers s ! nat pos) = cid"
    by (auto simp add: indexExact_def)
  then have "nat pos < length (customers s)" by simp
  with \<open>ID (customers s ! nat pos) = cid\<close> show "\<exists>c \<in> set (customers s). ID c = cid"
    using nth_mem by blast
next
  assume "\<exists>c \<in> set (customers s). ID c = cid"
  then obtain p where "p < length (customers s)" "ID (customers s ! p) = cid"
    by (auto simp add: in_set_conv_nth)
  with assms show "customerLinks s cid \<noteq> None" by (auto simp add: indexExact_def)
qed

lemma Create_absent:
  "customerLinks s cid = None \<Longrightarrow>
   Create s now cid attrs =
     (s\<lparr>customers := customers s @
            [\<lparr>ID = cid, Attributes = attrs, Events = Map.empty, LastUpdated = now\<rparr>],
        customerLinks := (customerLinks s)(cid \<mapsto> int (length (customers s)))\<rparr>,
      Inr \<lparr>ID = cid, Attributes = attrs, Events = Map.empty, LastUpdated = now\<rparr>)"
  by (simp add: Create_def registerCustomer_def Let_def)

lemma Create_present:
  "customerLinks s cid \<noteq> None \<Longrightarrow> Create s now cid attrs = (s, Inl ErrCustomerAlreadyExists)"
  by (auto simp add: Create_def)

lemma indexExact_append:
  assumes ex: "indexExact s" and absent: "customerLinks s cid = None" and c: "ID c = cid"
  shows "indexExact (s\<lparr>customers := customers s @ [c],
                       customerLinks := (customerLinks s)(cid \<mapsto> int (length (customers s)))\<rparr>)"
proof -
  have stored: "customerLinks s (ID (customers s ! p)) = Some (int p)" if "p < length (customers s)" for p
    using ex that by (simp add: indexExact_def)
  have linked: "0 \<le> pos \<and> pos < int (length (customers s)) \<and> ID (customers s ! nat pos) = k"
    if "customerLinks s k = Some pos" for k pos
    using ex that by (simp add: indexExact_def)
  show ?thesis
    unfolding indexExact_def
  proof (intro conjI allI impI)
    fix p
    assume "p < length (customers (s\<lparr>customers := customers s @ [c],
                       customerLinks := (customerLinks s)(cid \<mapsto> int (length (customers s)))\<rparr>))"
    then have p: "p < length (customers s) \<or> p = length (customers s)" by auto
    then show "customerLinks (s\<lparr>customers := customers s @ [c],
                       customerLinks := (customerLinks s)(cid \<mapsto> int (length (customers s)))\<rparr>)
                 (ID (customers (s\<lparr>customers := customers s @ [c],
                       customerLinks := (customerLinks s)(cid \<mapsto> int (length (customers s)))\<rparr>) ! p)) = Some (int p)"
    proof
      assume lt: "p < length (customers s)"
      from stored[OF lt] absent have "ID (customers s ! p) \<noteq> cid" by auto
      with stored[OF lt] lt show ?thesis by (simp add: nth_append)
    next
      assume "p = length (customers s)"
      with c show ?thesis by simp
    qed
  next
    fix k pos
    assume l: "customerLinks (s\<lparr>customers := customers s @ [c],
                       customerLinks := (customerLinks s)(cid \<mapsto> int (length (customers s)))\<rparr>) k = Some pos"
    have "0 \<le> pos \<and> pos < int (length (customers s @ [c])) \<and> ID ((customers s @ [c]) ! nat pos) = k"
    proof (cases "k = cid")
      case True
      with l c show ?thesis by auto
    next
      case False
      with l have "customerLinks s k = Some pos" by simp
      from linked[OF this] show ?thesis by (auto simp add: nth_append)
    qed
    then show "0 \<le> pos"
      "pos < int (length (customers (s\<lparr>customers := customers s @ [c],
                       customerLinks := (customerLinks s)(cid \<mapsto> int (length (customers s)))\<rparr>)))"
      "ID (customers (s\<lparr>customers := customers s @ [c],
                       customerLinks := (customerLinks s)(cid \<mapsto> int (length (customers s)))\<rparr>) ! nat pos) = k"
      by simp_all
  qed
qed

lemma indexExact_Create:
  assumes "indexExact s"
  shows "indexExact (fst (Create s now cid attrs))"
proof (cases "customerLinks s cid")
  case None
  from indexExact_append[OF assms None, of "\<lparr>ID = cid, Attributes = attrs, Events = Map.empty, LastUpdated = now\<rparr>"]
  show ?thesis by (simp add: Create_absent[OF None])
next
  case (Some pos)
  then have "customerLinks s cid \<noteq> None" by simp
  from Create_present[OF this] assms show ?thesis by simp
qed

text \<open>
  \<^verbatim>\<open>Create\<close> by its two branches. It fails exactly when the id is in the index, and
  then returns the store unchanged; otherwise it appends the customer and links the id to
  the new last slot. On a store that satisfies I1 the failing case is exactly that a
  customer with the id is stored.
\<close>

lemma Create_collision:
  "(snd (Create s now cid attrs) = Inl ErrCustomerAlreadyExists \<longleftrightarrow> customerLinks s cid \<noteq> None) \<and>
   (customerLinks s cid \<noteq> None \<longrightarrow> Create s now cid attrs = (s, Inl ErrCustomerAlreadyExists)) \<and>
   (customerLinks s cid = None \<longrightarrow>
      Create s now cid attrs =
        (s\<lparr>customers := customers s @
               [\<lparr>ID = cid, Attributes = attrs, Events = Map.empty, LastUpdated = now\<rparr>],
           customerLinks := (customerLinks s)(cid \<mapsto> int (length (customers s)))\<rparr>,
         Inr \<lparr>ID = cid, Attributes = attrs, Events = Map.empty, LastUpdated = now\<rparr>)) \<and>
   (indexExact s \<longrightarrow>
      indexExact (fst (Create s now cid attrs)) \<and>
      (snd (Create s now cid attrs) = Inl ErrCustomerAlreadyExists \<longleftrightarrow>
         (\<exists>c \<in> set (customers s). ID c = cid))) \<and>
   snd (Create (fst (Create emptyStore now 5 Map.empty)) now' 5 Map.empty) =
     Inl ErrCustomerAlreadyExists"
proof -
  have iff: "snd (Create s now cid attrs) = Inl ErrCustomerAlreadyExists \<longleftrightarrow> customerLinks s cid \<noteq> None"
  proof (cases "customerLinks s cid")
    case None
    then show ?thesis by (simp add: Create_absent)
  next
    case (Some pos)
    then have "customerLinks s cid \<noteq> None" by simp
    from Create_present[OF this] this show ?thesis by simp
  qed
  have twice: "snd (Create (fst (Create emptyStore now 5 Map.empty)) now' 5 Map.empty) =
     Inl ErrCustomerAlreadyExists"
    by (simp add: Create_def registerCustomer_def emptyStore_def Let_def)
  from iff twice show ?thesis
    using Create_present[of s cid now attrs] Create_absent[of s cid now attrs]
      indexExact_Create[of s now cid attrs] indexExact_stored[of s cid]
    by blast
qed

text \<open>Ingestion keeps I1.\<close>

lemma indexExact_register:
  assumes "indexExact s" "Atoi (UserID r) = Some uid" "customerLinks s uid = None"
  shows "indexExact (fst (registerCustomerFromRecord s r))"
  using indexExact_append[OF assms(1,3),
      of "\<lparr>ID = uid, Attributes = Map.empty, Events = Map.empty, LastUpdated = Timestamp r\<rparr>"]
  by (simp add: registerCustomerFromRecord_parsed[OF assms(2)])

lemma indexExact_processRecord:
  assumes "indexExact s"
  shows "indexExact (fst (processRecord s r))"
proof -
  have same: "ID (customers (fst (processRecord s r)) ! p) = ID (customers s ! p)"
    if "p < length (customers s)" for p
    using processRecord_lastUpdated_mono[OF that, of r] by simp
  have "nat pos < length (customers s)" if "0 \<le> pos" "pos < int (length (customers s))" for pos
    using that by simp
  with assms same show ?thesis
    unfolding indexExact_def by (simp add: processRecord_frame)
qed

lemma indexExact_New_step:
  assumes "indexExact s"
  shows "indexExact (fst (New_step s r))"
proof (cases "Atoi (UserID r)")
  case None
  with assms show ?thesis by (simp add: New_step_unparsed)
next
  case (Some uid)
  show ?thesis
  proof (cases "customerLinks s uid")
    case None
    from indexExact_processRecord[OF indexExact_register[OF assms Some None]]
    show ?thesis by (simp add: New_step_unregistered[OF Some None])
  next
    case link: (Some pos)
    from indexExact_processRecord[OF assms]
    show ?thesis by (simp add: New_step_registered[OF Some link])
  qed
qed

lemma indexExact_ingest:
  "indexExact s \<Longrightarrow> ingest s rs = Inr s' \<Longrightarrow> indexExact s'"
proof (induction rs arbitrary: s)
  case Nil
  then show ?case by simp
next
  case (Cons r rs)
  obtain s1 res where step: "New_step s r = (s1, res)" by (cases "New_step s r")
  with Cons.prems(2) have "ingest s1 rs = Inr s'" by (simp split: option.split_asm)
  moreover from indexExact_New_step[OF Cons.prems(1), of r] step have "indexExact s1" by simp
  ultimately show ?case by (rule Cons.IH[rotated])
qed

text \<open>Whatever \<^verbatim>\<open>New\<close> returns satisfies I1.\<close>

lemma indexExact_New: "New rs = Inr s \<Longrightarrow> indexExact s"
  unfolding New_def by (rule indexExact_ingest[OF indexExact_emptyStore])

text \<open>
  The loop of \<^verbatim>\<open>fixLinks\<close> stays inside the slice, so \<^verbatim>\<open>fixLinks\<close> returns \<^verbatim>\<open>nil\<close> and
  \<^verbatim>\<open>Delete\<close> fails only for an unknown id or on a link out of range.
\<close>

lemma fixLinksLoop_in_range:
  "0 \<le> i \<Longrightarrow> j < int (length cs) \<Longrightarrow> snd (fixLinksLoop cs i j links) = None"
proof (induction cs i j links rule: fixLinksLoop.induct)
  case (1 cs i j links)
  show ?case
  proof (cases "i < j")
    case True
    with "1.prems" have ok: "\<not> (i < 0 \<or> int (length cs) \<le> j)" by simp
    from "1.IH"[OF True ok] "1.prems" True have
      "snd (fixLinksLoop cs (i + 1) (j - 1) (links(ID (cs ! nat i) \<mapsto> i, ID (cs ! nat j) \<mapsto> j))) = None"
      by (simp add: fun_upd_def)
    with True ok show ?thesis by (subst fixLinksLoop.simps) simp
  next
    case False
    then show ?thesis by (subst fixLinksLoop.simps) simp
  qed
qed

lemma fixLinks_returns_nil: "snd (fixLinks ds) = None"
  using fixLinksLoop_in_range[of 0 "int (length (customers ds)) - 1" "customers ds" "customerLinks ds"]
  by (cases "fixLinksLoop (customers ds) 0 (int (length (customers ds)) - 1) (customerLinks ds)")
     (simp add: fixLinks_def)

lemma Delete_result:
  "snd (Delete ds cid) =
     (case customerLinks ds cid of
        None \<Rightarrow> Some ErrCustomerNotFound
      | Some pos \<Rightarrow>
          if pos < 0 \<or> int (length (customers ds)) \<le> pos then Some PanicIndexOutOfRange else None)"
  by (simp add: Delete_def Let_def fixLinks_returns_nil split: option.split)

subsection \<open>\<^verbatim>\<open>Delete\<close> and the index\<close>

text \<open>
  What the loop of \<^verbatim>\<open>fixLinks\<close> does to links that are right for every slot between
  the cursors but slot \<open>q\<close>: it repairs slot \<open>q\<close> unless \<open>q\<close> is the slot where the
  cursors meet.
\<close>

lemma fixLinksLoop_repairs:
  assumes "distinct (map ID cs)" "0 \<le> i" "j < int (length cs)"
    and "\<forall>p. i \<le> p \<and> p \<le> j \<and> p \<noteq> q \<longrightarrow> links (ID (cs ! nat p)) = Some p"
  shows "fst (fixLinksLoop cs i j links) =
           (if i \<le> q \<and> q \<le> j \<and> q + q \<noteq> i + j then links(ID (cs ! nat q) \<mapsto> q) else links)"
  using assms
proof (induction cs i j links rule: fixLinksLoop.induct)
  case (1 cs i j links)
  show ?case
  proof (cases "i < j")
    case False
    then show ?thesis by (subst fixLinksLoop.simps) auto
  next
    case True
    with "1.prems" have ok: "\<not> (i < 0 \<or> int (length cs) \<le> j)" by simp
    let ?links2 = "links(ID (cs ! nat i) \<mapsto> i, ID (cs ! nat j) \<mapsto> j)"
    have neq: "ID (cs ! nat a) \<noteq> ID (cs ! nat b)"
      if "0 \<le> a" "a < int (length cs)" "0 \<le> b" "b < int (length cs)" "a \<noteq> b" for a b
    proof -
      from that have "nat a < length cs" "nat b < length cs" "nat a \<noteq> nat b" by auto
      with "1.prems"(1) show ?thesis
        by (metis distinct_conv_nth length_map nth_map)
    qed
    have unfold: "fst (fixLinksLoop cs i j links) = fst (fixLinksLoop cs (i + 1) (j - 1) ?links2)"
      using True ok by (subst fixLinksLoop.simps) simp
    have rest: "\<forall>p. i + 1 \<le> p \<and> p \<le> j - 1 \<and> p \<noteq> q \<longrightarrow> ?links2 (ID (cs ! nat p)) = Some p"
    proof (intro allI impI)
      fix p assume p: "i + 1 \<le> p \<and> p \<le> j - 1 \<and> p \<noteq> q"
      with "1.prems" have "links (ID (cs ! nat p)) = Some p" by simp
      moreover from p "1.prems" have "ID (cs ! nat p) \<noteq> ID (cs ! nat i)" by (intro neq) auto
      moreover from p "1.prems" have "ID (cs ! nat p) \<noteq> ID (cs ! nat j)" by (intro neq) auto
      ultimately show "?links2 (ID (cs ! nat p)) = Some p" by simp
    qed
    from "1.prems" True have b: "0 \<le> i + 1" "j - 1 < int (length cs)" by simp_all
    have ih: "fst (fixLinksLoop cs (i + 1) (j - 1) ?links2) =
           (if i + 1 \<le> q \<and> q \<le> j - 1 \<and> q + q \<noteq> (i + 1) + (j - 1)
            then ?links2(ID (cs ! nat q) \<mapsto> q) else ?links2)"
      using "1.IH"[OF True ok "1.prems"(1) b] rest by (simp add: fun_upd_def)
    have ij: "ID (cs ! nat i) \<noteq> ID (cs ! nat j)"
      using True "1.prems" by (intro neq) auto
    consider (left) "q = i" | (right) "q = j" | (other) "q \<noteq> i" "q \<noteq> j" by blast
    then show ?thesis
    proof cases
      case left
      with "1.prems" True have "links (ID (cs ! nat j)) = Some j" by simp
      then have "?links2 = links(ID (cs ! nat q) \<mapsto> q)"
        using left ij by (auto simp add: fun_eq_iff)
      with unfold ih left True show ?thesis by simp
    next
      case right
      with "1.prems" True have "links (ID (cs ! nat i)) = Some i" by simp
      then have "?links2 = links(ID (cs ! nat q) \<mapsto> q)"
        using right ij by (auto simp add: fun_eq_iff)
      with unfold ih right True show ?thesis by simp
    next
      case other
      with "1.prems" True have "links (ID (cs ! nat i)) = Some i" "links (ID (cs ! nat j)) = Some j"
        by simp_all
      then have "?links2 = links" by (auto simp add: fun_eq_iff)
      with unfold ih other True show ?thesis by auto
    qed
  qed
qed


lemma indexExact_distinct:
  assumes "indexExact s"
  shows "distinct (map ID (customers s))"
proof -
  have "map ID (customers s) ! a \<noteq> map ID (customers s) ! b"
    if "a < length (map ID (customers s))" "b < length (map ID (customers s))" "a \<noteq> b" for a b
  proof
    assume eq: "map ID (customers s) ! a = map ID (customers s) ! b"
    from that assms have "customerLinks s (ID (customers s ! a)) = Some (int a)"
      "customerLinks s (ID (customers s ! b)) = Some (int b)"
      by (simp_all add: indexExact_def)
    with eq that show False by simp
  qed
  then show ?thesis by (simp only: distinct_conv_nth) blast
qed

text \<open>The store \<^verbatim>\<open>Delete\<close> hands to \<^verbatim>\<open>fixLinks\<close>, for a link in range.\<close>

lemma Delete_in_range:
  assumes "customerLinks s cid = Some pos" "0 \<le> pos" "pos < int (length (customers s))"
  shows "Delete s cid =
           fixLinks (s\<lparr>customerLinks := (customerLinks s)(cid := None),
                       customers := take (length (customers s) - 1)
                          ((customers s)[nat pos := last (customers s)])\<rparr>)"
proof -
  from assms have ne: "customers s \<noteq> []" by auto
  then have "customers s ! nat (int (length (customers s)) - 1) = last (customers s)"
    by (simp add: last_conv_nth nat_diff_distrib')
  moreover have "nat (int (length (customers s)) - 1) = length (customers s) - 1" by simp
  ultimately show ?thesis using assms by (simp add: Delete_def Let_def)
qed


text \<open>
  \<^verbatim>\<open>Delete\<close> on a store that satisfies I1. It keeps I1 unless the slice has even
  length \<open>2 * pos + 2\<close>, \<open>pos\<close> being the slot deleted: then the customer moved from
  the last slot lands on the slot where the cursors of \<^verbatim>\<open>fixLinks\<close> meet, and its link
  still names the old last slot, one past the end of the truncated slice.
\<close>

lemma Delete_index:
  assumes ex: "indexExact s" and link: "customerLinks s cid = Some pos"
  shows "snd (Delete s cid) = None \<and>
         length (customers (fst (Delete s cid))) = length (customers s) - 1 \<and>
         (if int (length (customers s)) = 2 * pos + 2
          then customerLinks (fst (Delete s cid)) (ID (last (customers s))) =
                 Some (int (length (customers s)) - 1)
          else indexExact (fst (Delete s cid)))"
proof -
  define cs where "cs = customers s"
  define n where "n = length cs"
  define links1 where "links1 = (customerLinks s)(cid := None)"
  define cs' where "cs' = take (n - 1) (cs[nat pos := last cs])"
  define s1 where "s1 = s\<lparr>customerLinks := links1, customers := cs'\<rparr>"
  from ex link have lo: "0 \<le> pos" and hi: "pos < int n" and at: "ID (cs ! nat pos) = cid"
    by (auto simp add: indexExact_def cs_def n_def)
  have stored: "customerLinks s (ID (cs ! p)) = Some (int p)" if "p < n" for p
    using ex that by (simp add: indexExact_def cs_def n_def)
  have linked: "0 \<le> q \<and> q < int n \<and> ID (cs ! nat q) = k" if "customerLinks s k = Some q" for k q
    using ex that by (simp add: indexExact_def cs_def n_def)
  from hi lo have npos: "0 < n" "nat pos < n" by auto
  then have lastcs: "last cs = cs ! (n - 1)" by (simp add: last_conv_nth n_def)
  have len': "length cs' = n - 1" by (simp add: cs'_def n_def)
  have nth': "cs' ! p = (if p = nat pos then cs ! (n - 1) else cs ! p)" if "p < n - 1" for p
    using that npos by (simp add: cs'_def lastcs nth_list_update n_def)
  have ids: "ID (cs ! a) \<noteq> ID (cs ! b)" if "a < n" "b < n" "a \<noteq> b" for a b
    using stored[OF that(1)] stored[OF that(2)] that(3) by auto
  have other: "ID (cs ! p) \<noteq> cid" if "p < n" "p \<noteq> nat pos" for p
    using ids[OF that(1) npos(2) that(2)] at by simp
  have dist': "distinct (map ID cs')"
  proof -
    have "map ID cs' ! a \<noteq> map ID cs' ! b"
      if "a < length (map ID cs')" "b < length (map ID cs')" "a \<noteq> b" for a b
    proof -
      from that len' have ab: "a < n - 1" "b < n - 1" by simp_all
      then have "ID (cs' ! a) \<noteq> ID (cs' ! b)"
        using that(3) ids[of "n - 1" b] ids[of a "n - 1"] ids[of a b]
        by (auto simp add: nth')
      with ab len' show ?thesis by simp
    qed
    then show ?thesis by (simp only: distinct_conv_nth) blast
  qed
  have pre: "\<forall>p. 0 \<le> p \<and> p \<le> int (length cs') - 1 \<and> p \<noteq> pos \<longrightarrow> links1 (ID (cs' ! nat p)) = Some p"
  proof (intro allI impI)
    fix p assume p: "0 \<le> p \<and> p \<le> int (length cs') - 1 \<and> p \<noteq> pos"
    with len' lo have np: "nat p < n - 1" "nat p \<noteq> nat pos" "nat p < n" by auto
    from nth'[OF np(1)] np(2) have "cs' ! nat p = cs ! nat p" by simp
    with other[OF np(3) np(2)] stored[OF np(3)] p show "links1 (ID (cs' ! nat p)) = Some p"
      by (simp add: links1_def)
  qed
  have loop: "fst (fixLinksLoop cs' 0 (int (length cs') - 1) links1) =
           (if 0 \<le> pos \<and> pos \<le> int (length cs') - 1 \<and> pos + pos \<noteq> 0 + (int (length cs') - 1)
            then links1(ID (cs' ! nat pos) \<mapsto> pos) else links1)"
    by (rule fixLinksLoop_repairs[OF dist' _ _ pre]) simp_all
  from Delete_in_range[OF link] lo hi have del: "Delete s cid = fixLinks s1"
    by (simp add: s1_def links1_def cs'_def cs_def n_def)
  then have res: "fst (Delete s cid) =
      s1\<lparr>customerLinks := fst (fixLinksLoop cs' 0 (int (length cs') - 1) links1)\<rparr>"
    by (simp add: fixLinks_def s1_def split: prod.split)
  from del have ok: "snd (Delete s cid) = None" by (simp add: fixLinks_returns_nil)
  from res have length: "length (customers (fst (Delete s cid))) = length (customers s) - 1"
    by (simp add: s1_def len' n_def cs_def)
  have final: "if int n = 2 * pos + 2
          then customerLinks (fst (Delete s cid)) (ID (last cs)) = Some (int n - 1)
          else indexExact (fst (Delete s cid))"
  proof (cases "int n = 2 * pos + 2")
    case True
    with lo have last_ne: "n - 1 \<noteq> nat pos" "n - 1 < n" by auto
    from True len' npos
    have "\<not> (0 \<le> pos \<and> pos \<le> int (length cs') - 1 \<and> pos + pos \<noteq> 0 + (int (length cs') - 1))"
      by auto
    with loop have "fst (fixLinksLoop cs' 0 (int (length cs') - 1) links1) = links1"
      by (simp only: if_False)
    moreover from other[OF last_ne(2) last_ne(1)] stored[OF last_ne(2)] npos
    have "links1 (ID (cs ! (n - 1))) = Some (int n - 1)"
      by (simp add: links1_def of_nat_diff)
    ultimately show ?thesis using True by (simp add: res s1_def lastcs)
  next
    case False
    show ?thesis
    proof (cases "nat pos = n - 1")
      case True
      with lo len'
      have "\<not> (0 \<le> pos \<and> pos \<le> int (length cs') - 1 \<and> pos + pos \<noteq> 0 + (int (length cs') - 1))"
        by auto
      with loop have "fst (fixLinksLoop cs' 0 (int (length cs') - 1) links1) = links1"
        by (simp only: if_False simp_thms)
      then have st: "fst (Delete s cid) = s1" by (simp add: res s1_def)
      have "indexExact s1"
        unfolding indexExact_def
      proof (intro conjI allI impI)
        fix p assume "p < length (customers s1)"
        then have p: "p < n - 1" by (simp add: s1_def len')
        with True have "cs' ! p = cs ! p" "p \<noteq> nat pos" "p < n" by (simp_all add: nth')
        with other[of p] stored[of p]
        show "customerLinks s1 (ID (customers s1 ! p)) = Some (int p)"
          by (simp add: s1_def links1_def)
      next
        fix k q assume "customerLinks s1 k = Some q"
        then have k: "k \<noteq> cid" "customerLinks s k = Some q"
          by (simp_all add: s1_def links1_def split: if_split_asm)
        from linked[OF k(2)] have q: "0 \<le> q" "q < int n" "ID (cs ! nat q) = k" by simp_all
        with k(1) at have "nat q \<noteq> nat pos" by auto
        with q True have q': "nat q < n - 1" by auto
        with nth'[OF q'] \<open>nat q \<noteq> nat pos\<close> q
        show "0 \<le> q" "q < int (length (customers s1))" "ID (customers s1 ! nat q) = k"
          by (auto simp add: s1_def len')
      qed
      with False st show ?thesis by simp
    next
      case notlast: False
      with npos have mid: "nat pos < n - 1" "n - 1 < n" "n - 1 \<noteq> nat pos" by auto
      define m where "m = ID (cs ! (n - 1))"
      from mid lo False len'
      have "0 \<le> pos \<and> pos \<le> int (length cs') - 1 \<and> pos + pos \<noteq> 0 + (int (length cs') - 1)"
        by auto
      with loop have "fst (fixLinksLoop cs' 0 (int (length cs') - 1) links1) =
          links1(ID (cs' ! nat pos) \<mapsto> pos)"
        by (simp only: if_True simp_thms)
      moreover from nth'[OF mid(1)] have "ID (cs' ! nat pos) = m" by (simp add: m_def)
      ultimately have st: "fst (Delete s cid) = s1\<lparr>customerLinks := links1(m \<mapsto> pos)\<rparr>"
        by (simp add: res)
      from other[OF mid(2) mid(3)] have mcid: "m \<noteq> cid" by (simp add: m_def)
      have "indexExact (s1\<lparr>customerLinks := links1(m \<mapsto> pos)\<rparr>)"
        unfolding indexExact_def
      proof (intro conjI allI impI)
        fix p assume "p < length (customers (s1\<lparr>customerLinks := links1(m \<mapsto> pos)\<rparr>))"
        then have p: "p < n - 1" by (simp add: s1_def len')
        show "customerLinks (s1\<lparr>customerLinks := links1(m \<mapsto> pos)\<rparr>)
                (ID (customers (s1\<lparr>customerLinks := links1(m \<mapsto> pos)\<rparr>) ! p)) = Some (int p)"
        proof (cases "p = nat pos")
          case True
          with nth'[OF p] lo show ?thesis by (simp add: s1_def m_def)
        next
          case False
          with p have "cs' ! p = cs ! p" "p < n" "p \<noteq> n - 1" by (simp_all add: nth')
          with other[of p] stored[of p] ids[of p "n - 1"] mid False
          show ?thesis by (simp add: s1_def links1_def m_def)
        qed
      next
        fix k q assume l: "customerLinks (s1\<lparr>customerLinks := links1(m \<mapsto> pos)\<rparr>) k = Some q"
        have "0 \<le> q \<and> q < int (length cs') \<and> ID (cs' ! nat q) = k"
        proof (cases "k = m")
          case True
          with l have "q = pos" by (simp add: s1_def)
          with True lo mid nth'[OF mid(1)] show ?thesis by (simp add: len' m_def)
        next
          case False
          with l have k: "k \<noteq> cid" "customerLinks s k = Some q"
            by (simp_all add: s1_def links1_def split: if_split_asm)
          from linked[OF k(2)] have q: "0 \<le> q" "q < int n" "ID (cs ! nat q) = k" by simp_all
          with k(1) at have a: "nat q \<noteq> nat pos" by auto
          from q False have b: "nat q \<noteq> n - 1" by (auto simp add: m_def)
          with q have q': "nat q < n - 1" by auto
          with nth'[OF q'] a q show ?thesis by (auto simp add: len')
        qed
        then show "0 \<le> q" "q < int (length (customers (s1\<lparr>customerLinks := links1(m \<mapsto> pos)\<rparr>)))"
          "ID (customers (s1\<lparr>customerLinks := links1(m \<mapsto> pos)\<rparr>) ! nat q) = k"
          by (simp_all add: s1_def)
      qed
      with False st show ?thesis by simp
    qed
  qed
  from ok length final[unfolded n_def cs_def] show ?thesis by blast
qed


text \<open>In that case \<^verbatim>\<open>Get\<close> on the moved customer's id panics.\<close>

lemma Get_after_Delete:
  assumes "indexExact s" "customerLinks s cid = Some pos" "int (length (customers s)) = 2 * pos + 2"
  shows "Get (fst (Delete s cid)) (ID (last (customers s))) = Inl PanicIndexOutOfRange"
proof -
  from Delete_index[OF assms(1,2)] assms(3)
  have "length (customers (fst (Delete s cid))) = length (customers s) - 1"
    "customerLinks (fst (Delete s cid)) (ID (last (customers s))) = Some (int (length (customers s)) - 1)"
    by simp_all
  moreover from assms(1,2) have "0 \<le> pos \<and> pos < int (length (customers s))"
    unfolding indexExact_def by blast
  then have "0 < length (customers s)" by auto
  ultimately show ?thesis by (simp add: Get_def)
qed

subsection \<open>The claims\<close>

text \<open>
  C1. The index invariant I1 is meant to hold after every \<^verbatim>\<open>Create\<close> and
  \<^verbatim>\<open>Delete\<close>. \<^verbatim>\<open>Create\<close> keeps it (\<open>indexExact_Create\<close>); \<^verbatim>\<open>Delete\<close> breaks
  it whenever the deleted slot \<open>pos\<close> and the length \<open>n\<close> of the slice satisfy
  \<open>n = 2 * pos + 2\<close> (\<open>Delete_index\<close>). The smallest case: after \<open>Create(1, {})\<close>
  and \<open>Create(2, {})\<close> on the empty store the slice holds customers 1 and 2 in slots 0
  and 1, linked exactly. \<open>Delete(1)\<close> returns no error, moves customer 2 into slot 0 and
  truncates; the loop of \<^verbatim>\<open>fixLinks\<close> starts with \<open>i = j = 0\<close> and does not run
  (\<open>i < j\<close>), so customer 2, now in slot 0, is still linked to slot 1.
\<close>

theorem Delete_leaves_stale_link:
  "New [] = Inr emptyStore \<and>
   map ID (customers twoCustomers) = [1, 2] \<and>
   customerLinks twoCustomers 1 = Some 0 \<and>
   customerLinks twoCustomers 2 = Some 1 \<and>
   snd (Delete twoCustomers 1) = None \<and>
   map ID (customers afterDelete) = [2] \<and>
   customerLinks afterDelete 2 = Some 1"
  by (simp add: New_def crud_eval fixLinksLoop.simps)

text \<open>
  C2. \<^verbatim>\<open>Get\<close> on an id of the index is meant to stay inside the slice; after a
  \<^verbatim>\<open>Delete\<close> that leaves a stale link it does not (\<open>Get_after_Delete\<close>). After the
  \<^verbatim>\<open>Delete\<close> above, id 2 is linked to slot 1 of a slice of length 1, and \<open>Get(2)\<close>
  panics with an index out of range. Only after one more \<^verbatim>\<open>Create\<close> has filled slot
  1 does \<open>Get(2)\<close> return, and then it returns the new customer 3.
\<close>

theorem Get_panics_on_stale_link:
  "customerLinks afterDelete 2 = Some 1 \<and>
   length (customers afterDelete) = 1 \<and>
   Get afterDelete 2 = Inl PanicIndexOutOfRange \<and>
   Get (fst (Create afterDelete 100 3 Map.empty)) 2 =
     Inr \<lparr>ID = 3, Attributes = Map.empty, Events = Map.empty, LastUpdated = 100\<rparr>"
  by (simp add: crud_eval fixLinksLoop.simps)



text \<open>
  C4. Attribute last-writer-wins. Take a registered user whose link is in range and whose
  customer has a watermark of at most \<open>t1\<close>, and two attributes records for that user
  with timestamps \<open>t1 < t2\<close> that both set key \<open>k\<close>. Ingested in order \<open>t1, t2\<close>,
  the key ends with the value of the \<open>t2\<close> record. Ingested in order \<open>t2, t1\<close>, the
  \<open>t1\<close> record returns no error and leaves the store exactly as the \<open>t2\<close> record
  left it, so the key again holds the \<open>t2\<close> value. The watermark ends at \<open>t2\<close>
  either way.
\<close>

theorem attribute_last_writer_wins:
  assumes u1: "Atoi (UserID r1) = Some uid" and u2: "Atoi (UserID r2) = Some uid"
    and a1: "Type r1 = ''attributes''" and a2: "Type r2 = ''attributes''"
    and link: "customerLinks s uid = Some pos" and lo: "0 \<le> pos"
    and hi: "pos < int (length (customers s))"
    and mark: "LastUpdated (customers s ! nat pos) \<le> Timestamp r1"
    and order: "Timestamp r1 < Timestamp r2"
    and k1: "Data r1 k = Some v1" and k2: "Data r2 k = Some v2"
  shows "(\<exists>s'. ingest s [r1, r2] = Inr s' \<and>
              Attributes (customers s' ! nat pos) k = Some v2 \<and>
              LastUpdated (customers s' ! nat pos) = Timestamp r2) \<and>
         (\<exists>s2. New_step s r2 = (s2, None) \<and> New_step s2 r1 = (s2, None) \<and>
              ingest s [r2, r1] = Inr s2 \<and>
              Attributes (customers s2 ! nat pos) k = Some v2 \<and>
              LastUpdated (customers s2 ! nat pos) = Timestamp r2)"
proof
  from New_step_attributes_applied[OF u1 link lo hi a1 mark]
  obtain s1 where s1: "New_step s r1 = (s1, None)" "customerLinks s1 = customerLinks s"
    "length (customers s1) = length (customers s)"
    "LastUpdated (customers s1 ! nat pos) = Timestamp r1"
    by blast
  from s1 link hi order have "customerLinks s1 uid = Some pos" "pos < int (length (customers s1))"
    "LastUpdated (customers s1 ! nat pos) \<le> Timestamp r2"
    by simp_all
  from New_step_attributes_applied[OF u2 this(1) lo this(2) a2 this(3)]
  obtain s' where "New_step s1 r2 = (s', None)"
    "Attributes (customers s' ! nat pos) = Attributes (customers s1 ! nat pos) ++ Data r2"
    "LastUpdated (customers s' ! nat pos) = Timestamp r2"
    by blast
  with s1(1) k2
  show "\<exists>s'. ingest s [r1, r2] = Inr s' \<and>
              Attributes (customers s' ! nat pos) k = Some v2 \<and>
              LastUpdated (customers s' ! nat pos) = Timestamp r2"
    by simp
next
  from mark order have "LastUpdated (customers s ! nat pos) \<le> Timestamp r2" by simp
  from New_step_attributes_applied[OF u2 link lo hi a2 this]
  obtain s2 where s2: "New_step s r2 = (s2, None)" "customerLinks s2 = customerLinks s"
    "length (customers s2) = length (customers s)"
    "Attributes (customers s2 ! nat pos) = Attributes (customers s ! nat pos) ++ Data r2"
    "LastUpdated (customers s2 ! nat pos) = Timestamp r2"
    by blast
  from s2 link hi order have "customerLinks s2 uid = Some pos" "pos < int (length (customers s2))"
    "Timestamp r1 < LastUpdated (customers s2 ! nat pos)"
    by simp_all
  from New_step_attributes_dropped[OF u1 this(1) lo this(2) a1 this(3)]
  have "New_step s2 r1 = (s2, None)" .
  with s2 k2
  show "\<exists>s2. New_step s r2 = (s2, None) \<and> New_step s2 r1 = (s2, None) \<and>
              ingest s [r2, r1] = Inr s2 \<and>
              Attributes (customers s2 ! nat pos) k = Some v2 \<and>
              LastUpdated (customers s2 ! nat pos) = Timestamp r2"
    by simp
qed


theorem attribute_last_writer_wins_witness:
  "Atoi (UserID (redAttributes\<lparr>Timestamp := 15\<rparr>)) = Some 1 \<and>
   Atoi (UserID blueAttributes) = Some 1 \<and>
   Type (redAttributes\<lparr>Timestamp := 15\<rparr>) = ''attributes'' \<and>
   Type blueAttributes = ''attributes'' \<and>
   customerLinks afterOpen 1 = Some 0 \<and>
   (0::int) < int (length (customers afterOpen)) \<and>
   LastUpdated (customers afterOpen ! nat 0) \<le> Timestamp (redAttributes\<lparr>Timestamp := 15\<rparr>) \<and>
   Timestamp (redAttributes\<lparr>Timestamp := 15\<rparr>) < Timestamp blueAttributes \<and>
   Data (redAttributes\<lparr>Timestamp := 15\<rparr>) ''color'' = Some ''red'' \<and>
   Data blueAttributes ''color'' = Some ''blue'' \<and>
   (\<exists>s'. ingest afterOpen [redAttributes\<lparr>Timestamp := 15\<rparr>, blueAttributes] = Inr s' \<and>
         Attributes (customers s' ! nat 0) ''color'' = Some ''blue'' \<and>
         LastUpdated (customers s' ! nat 0) = 20) \<and>
   (\<exists>s2. New_step afterOpen blueAttributes = (s2, None) \<and>
         New_step s2 (redAttributes\<lparr>Timestamp := 15\<rparr>) = (s2, None) \<and>
         ingest afterOpen [blueAttributes, redAttributes\<lparr>Timestamp := 15\<rparr>] = Inr s2 \<and>
         Attributes (customers s2 ! nat 0) ''color'' = Some ''blue'' \<and>
         LastUpdated (customers s2 ! nat 0) = 20)"
proof -
  have u1: "Atoi (UserID (redAttributes\<lparr>Timestamp := 15\<rparr>)) = Some 1"
    and u2: "Atoi (UserID blueAttributes) = Some 1"
    by (simp_all add: Atoi_def atoiRange_def redAttributes_def blueAttributes_def)
  have a1: "Type (redAttributes\<lparr>Timestamp := 15\<rparr>) = ''attributes''"
    and a2: "Type blueAttributes = ''attributes''"
    and k1: "Data (redAttributes\<lparr>Timestamp := 15\<rparr>) ''color'' = Some ''red''"
    and k2: "Data blueAttributes ''color'' = Some ''blue''"
    and order: "Timestamp (redAttributes\<lparr>Timestamp := 15\<rparr>) < Timestamp blueAttributes"
    and t2: "Timestamp blueAttributes = 20"
    by (simp_all add: redAttributes_def blueAttributes_def)
  have link: "customerLinks afterOpen 1 = Some 0"
    and hi: "(0::int) < int (length (customers afterOpen))"
    and mark: "LastUpdated (customers afterOpen ! nat 0) \<le> Timestamp (redAttributes\<lparr>Timestamp := 15\<rparr>)"
    by (simp_all add: afterOpen_def redAttributes_def)
  note res = attribute_last_writer_wins[OF u1 u2 a1 a2 link order_refl hi mark order k1 k2,
      unfolded t2]
  from u1 u2 a1 a2 link hi mark order k1 k2 res show ?thesis by blast
qed

text \<open>
  C5 (as amended). Watermark asymmetry. Take a registered user whose link is in range and
  whose customer has watermark \<open>t1\<close>, an event record for that user with timestamp
  \<open>t3\<close>, and an attributes record for that user with timestamp \<open>t2\<close>,
  \<open>t1 < t2 < t3\<close>. When the event's record id is not marked as processed yet, the event
  raises the watermark to \<open>t3\<close> and leaves the attributes alone, and the attributes
  record applied after it returns no error and changes nothing. When the event's record id
  is already marked, the event returns no error and leaves the whole store as it was, so
  the watermark stays \<open>t1\<close>. Applied to a store where the watermark is still \<open>t1\<close>
  (before the event, or after such a duplicate), the attributes record is merged and moves
  the watermark to \<open>t2\<close>.
\<close>

theorem watermark_asymmetry:
  assumes ue: "Atoi (UserID e) = Some uid" and ua: "Atoi (UserID a) = Some uid"
    and te: "Type e = ''event''" and ta: "Type a = ''attributes''"
    and link: "customerLinks s uid = Some pos" and lo: "0 \<le> pos"
    and hi: "pos < int (length (customers s))"
    and t12: "LastUpdated (customers s ! nat pos) < Timestamp a"
    and t23: "Timestamp a < Timestamp e"
  shows "(processedEventsMap s (RecordID e) = None \<longrightarrow>
            (\<exists>s1. New_step s e = (s1, None) \<and>
                  LastUpdated (customers s1 ! nat pos) = Timestamp e \<and>
                  Attributes (customers s1 ! nat pos) = Attributes (customers s ! nat pos) \<and>
                  New_step s1 a = (s1, None))) \<and>
         (processedEventsMap s (RecordID e) \<noteq> None \<longrightarrow> New_step s e = (s, None)) \<and>
         (\<exists>s'. New_step s a = (s', None) \<and>
              Attributes (customers s' ! nat pos) = Attributes (customers s ! nat pos) ++ Data a \<and>
              LastUpdated (customers s' ! nat pos) = Timestamp a)"
proof (intro conjI impI)
  assume fresh: "processedEventsMap s (RecordID e) = None"
  define s1 where "s1 = fst (New_step s e)"
  from lo hi have n: "nat pos < length (customers s)" by simp
  from New_step_event_fresh[OF ue link lo hi te fresh] have step: "New_step s e = (s1, None)"
    by (simp add: s1_def)
  from New_step_event_fresh[OF ue link lo hi te fresh] n t12 t23
  have s1: "customerLinks s1 = customerLinks s" "length (customers s1) = length (customers s)"
    "LastUpdated (customers s1 ! nat pos) = Timestamp e"
    "Attributes (customers s1 ! nat pos) = Attributes (customers s ! nat pos)"
    by (simp_all add: s1_def raiseLastUpdated_def)
  from s1 link hi t23 have "customerLinks s1 uid = Some pos" "pos < int (length (customers s1))"
    "Timestamp a < LastUpdated (customers s1 ! nat pos)"
    by simp_all
  from New_step_attributes_dropped[OF ua this(1) lo this(2) ta this(3)]
  have "New_step s1 a = (s1, None)" .
  with step s1
  show "\<exists>s1. New_step s e = (s1, None) \<and>
              LastUpdated (customers s1 ! nat pos) = Timestamp e \<and>
              Attributes (customers s1 ! nat pos) = Attributes (customers s ! nat pos) \<and>
              New_step s1 a = (s1, None)"
    by blast
next
  assume "processedEventsMap s (RecordID e) \<noteq> None"
  then obtain b where marked: "processedEventsMap s (RecordID e) = Some b" by blast
  from link have "(case customerLinks s uid of None \<Rightarrow> 0 | Some p \<Rightarrow> p) = pos" by simp
  from processRecord_event_dup[OF ue this lo hi te marked]
  show "New_step s e = (s, None)" by (simp add: New_step_registered[OF ue link])
next
  from t12 have "LastUpdated (customers s ! nat pos) \<le> Timestamp a" by simp
  from New_step_attributes_applied[OF ua link lo hi ta this]
  show "\<exists>s'. New_step s a = (s', None) \<and>
              Attributes (customers s' ! nat pos) = Attributes (customers s ! nat pos) ++ Data a \<and>
              LastUpdated (customers s' ! nat pos) = Timestamp a"
    by blast
qed

theorem watermark_asymmetry_witness:
  "New [blueAttributes\<lparr>Timestamp := 1\<rparr>] = Inr blueStore \<and>
   Atoi (UserID openEvent) = Some 1 \<and> Atoi (UserID redAttributes) = Some 1 \<and>
   Type openEvent = ''event'' \<and> Type redAttributes = ''attributes'' \<and>
   customerLinks blueStore 1 = Some 0 \<and>
   (0::int) < int (length (customers blueStore)) \<and>
   processedEventsMap blueStore (RecordID openEvent) = None \<and>
   LastUpdated (customers blueStore ! nat 0) < Timestamp redAttributes \<and>
   Timestamp redAttributes < Timestamp openEvent \<and>
   (\<exists>s1. New_step blueStore openEvent = (s1, None) \<and>
         LastUpdated (customers s1 ! nat 0) = 10 \<and>
         Attributes (customers s1 ! nat 0) ''color'' = Some ''blue'' \<and>
         New_step s1 redAttributes = (s1, None)) \<and>
   customerLinks dupStore 1 = Some 1 \<and>
   (1::int) < int (length (customers dupStore)) \<and>
   processedEventsMap dupStore (RecordID openEvent) \<noteq> None \<and>
   LastUpdated (customers dupStore ! nat 1) < Timestamp redAttributes \<and>
   New_step dupStore openEvent = (dupStore, None) \<and>
   (\<exists>s'. New_step dupStore redAttributes = (s', None) \<and>
         Attributes (customers s' ! nat 1) ''color'' = Some ''red'' \<and>
         LastUpdated (customers s' ! nat 1) = 5)"
proof -
  have built: "New [blueAttributes\<lparr>Timestamp := 1\<rparr>] = Inr blueStore"
    by (simp add: ingest_eval blueStore_def blueAttributes_def)
  have ue: "Atoi (UserID openEvent) = Some 1" and ua: "Atoi (UserID redAttributes) = Some 1"
    by (simp_all add: Atoi_def atoiRange_def openEvent_def redAttributes_def)
  have te: "Type openEvent = ''event''" and ta: "Type redAttributes = ''attributes''"
    and t23: "Timestamp redAttributes < Timestamp openEvent"
    and t3: "Timestamp openEvent = 10" and t2: "Timestamp redAttributes = 5"
    and red: "Data redAttributes ''color'' = Some ''red''"
    by (simp_all add: openEvent_def redAttributes_def)
  have link: "customerLinks blueStore 1 = Some 0"
    and hi: "(0::int) < int (length (customers blueStore))"
    and fresh: "processedEventsMap blueStore (RecordID openEvent) = None"
    and t12: "LastUpdated (customers blueStore ! nat 0) < Timestamp redAttributes"
    and blue: "Attributes (customers blueStore ! nat 0) ''color'' = Some ''blue''"
    by (simp_all add: blueStore_def redAttributes_def)
  have link': "customerLinks dupStore 1 = Some 1"
    and hi': "(1::int) < int (length (customers dupStore))"
    and marked: "processedEventsMap dupStore (RecordID openEvent) \<noteq> None"
    and t12': "LastUpdated (customers dupStore ! nat 1) < Timestamp redAttributes"
    by (simp_all add: dupStore_def redAttributes_def openEvent_def)
  have lo': "(0::int) \<le> 1" by simp
  note first = watermark_asymmetry[OF ue ua te ta link order_refl hi t12 t23]
  from first fresh blue
  have a: "\<exists>s1. New_step blueStore openEvent = (s1, None) \<and>
         LastUpdated (customers s1 ! nat 0) = 10 \<and>
         Attributes (customers s1 ! nat 0) ''color'' = Some ''blue'' \<and>
         New_step s1 redAttributes = (s1, None)"
    unfolding t3 by metis
  note second = watermark_asymmetry[OF ue ua te ta link' lo' hi' t12' t23]
  from second marked have b: "New_step dupStore openEvent = (dupStore, None)" by blast
  from second obtain s' where s': "New_step dupStore redAttributes = (s', None)"
    "Attributes (customers s' ! nat 1) = Attributes (customers dupStore ! nat 1) ++ Data redAttributes"
    "LastUpdated (customers s' ! nat 1) = Timestamp redAttributes"
    by blast
  from s'(2) red have "Attributes (customers s' ! nat 1) ''color'' = Some ''red''" by simp
  with s' t2
  have c: "\<exists>s'. New_step dupStore redAttributes = (s', None) \<and>
         Attributes (customers s' ! nat 1) ''color'' = Some ''red'' \<and>
         LastUpdated (customers s' ! nat 1) = 5"
    by auto
  from built ue ua te ta link hi fresh t12 t23 a link' hi' marked t12' b c show ?thesis by blast
qed

text \<open>
  C5 as stated fails for an event record whose record id is already marked
  (\<^verbatim>\<open>processRecord\<close> returns at line 140, before the watermark lines). In the store
  built from an \<open>e1\<close> event for user 2 and attributes stamped 1 for user 1, customer 1
  has watermark 1; the \<open>e1\<close> event for user 1 stamped 10 leaves the store as it is, and
  the attributes record stamped 5 is then applied: \<open>color\<close> goes from blue to red.
\<close>

theorem watermark_asymmetry_counterexample:
  "New [openEvent\<lparr>UserID := ''2''\<rparr>, blueAttributes\<lparr>Timestamp := 1\<rparr>] = Inr dupStore \<and>
   Type openEvent = ''event'' \<and> Atoi (UserID openEvent) = Some 1 \<and>
   Type redAttributes = ''attributes'' \<and> Atoi (UserID redAttributes) = Some 1 \<and>
   Get dupStore 1 = Inr (customers dupStore ! 1) \<and>
   LastUpdated (customers dupStore ! 1) = 1 \<and>
   Timestamp redAttributes = 5 \<and> Timestamp openEvent = 10 \<and>
   New_step dupStore openEvent = (dupStore, None) \<and>
   Attributes (customers dupStore ! 1) ''color'' = Some ''blue'' \<and>
   Attributes (customers (fst (New_step dupStore redAttributes)) ! 1) ''color'' = Some ''red'' \<and>
   New [openEvent\<lparr>UserID := ''2''\<rparr>, blueAttributes\<lparr>Timestamp := 1\<rparr>, openEvent, redAttributes] =
     Inr (dupStore\<lparr>customers := [customers dupStore ! 0,
            \<lparr>ID = 1, Attributes = [''color'' \<mapsto> ''red''], Events = Map.empty, LastUpdated = 5\<rparr>]\<rparr>)"
  by (simp add: ingest_eval Get_def dupStore_def openEvent_def redAttributes_def blueAttributes_def)

text \<open>
  C6 (as amended). Every ingested record, whatever its kind and whether a duplicate or
  not, leaves each stored customer in its slot with the same id and a lastUpdated that is
  the same or greater; so does a whole ingestion run. \<^verbatim>\<open>Update\<close> keeps every customer
  in its slot and leaves lastUpdated untouched except for the customer its link points
  to, whose lastUpdated becomes the wall-clock time of the call, whatever it was before:
  it does not decrease exactly when that time is not below the old value.
\<close>

theorem lastUpdated_monotone_on_ingest:
  "(\<forall>p. p < length (customers s) \<longrightarrow>
       p < length (customers (fst (New_step s r))) \<and>
       ID (customers (fst (New_step s r)) ! p) = ID (customers s ! p) \<and>
       LastUpdated (customers s ! p) \<le> LastUpdated (customers (fst (New_step s r)) ! p)) \<and>
   (\<forall>s' p. ingest s rs = Inr s' \<and> p < length (customers s) \<longrightarrow>
       p < length (customers s') \<and> ID (customers s' ! p) = ID (customers s ! p) \<and>
       LastUpdated (customers s ! p) \<le> LastUpdated (customers s' ! p)) \<and>
   length (customers (fst (Update s now cid attrs))) = length (customers s) \<and>
   (\<forall>p. p < length (customers s) \<longrightarrow>
       ID (customers (fst (Update s now cid attrs)) ! p) = ID (customers s ! p) \<and>
       (LastUpdated (customers (fst (Update s now cid attrs)) ! p) = LastUpdated (customers s ! p) \<or>
        customerLinks s cid = Some (int p) \<and>
        LastUpdated (customers (fst (Update s now cid attrs)) ! p) = now)) \<and>
   (\<forall>pos. customerLinks s cid = Some pos \<and> 0 \<le> pos \<and> pos < int (length (customers s)) \<longrightarrow>
       LastUpdated (customers (fst (Update s now cid attrs)) ! nat pos) = now)"
proof (intro conjI allI impI)
  fix p assume "p < length (customers s)"
  from New_step_lastUpdated_mono[OF this, of r]
  show "p < length (customers (fst (New_step s r)))"
    "ID (customers (fst (New_step s r)) ! p) = ID (customers s ! p)"
    "LastUpdated (customers s ! p) \<le> LastUpdated (customers (fst (New_step s r)) ! p)"
    by simp_all
next
  fix s' p assume "ingest s rs = Inr s' \<and> p < length (customers s)"
  then have "ingest s rs = Inr s'" "p < length (customers s)" by simp_all
  from ingest_lastUpdated_mono[OF this]
  show "p < length (customers s')" "ID (customers s' ! p) = ID (customers s ! p)"
    "LastUpdated (customers s ! p) \<le> LastUpdated (customers s' ! p)"
    by simp_all
next
  show "length (customers (fst (Update s now cid attrs))) = length (customers s)"
    by (simp add: Update_customers split: option.split)
next
  fix p assume p: "p < length (customers s)"
  then show "ID (customers (fst (Update s now cid attrs)) ! p) = ID (customers s ! p)"
    by (auto simp add: Update_customers nth_list_update split: option.split)
  from p
  show "LastUpdated (customers (fst (Update s now cid attrs)) ! p) = LastUpdated (customers s ! p) \<or>
        customerLinks s cid = Some (int p) \<and>
        LastUpdated (customers (fst (Update s now cid attrs)) ! p) = now"
    by (auto simp add: Update_customers nth_list_update split: option.split if_split_asm)
next
  fix pos assume "customerLinks s cid = Some pos \<and> 0 \<le> pos \<and> pos < int (length (customers s))"
  then have "customerLinks s cid = Some pos" "\<not> (pos < 0 \<or> int (length (customers s)) \<le> pos)"
    "nat pos < length (customers s)"
    by auto
  then show "LastUpdated (customers (fst (Update s now cid attrs)) ! nat pos) = now"
    by (simp add: Update_customers)
qed

theorem lastUpdated_monotone_on_ingest_witness:
  "(0::nat) < length (customers afterOpen) \<and>
   LastUpdated (customers afterOpen ! 0) = 10 \<and>
   LastUpdated (customers afterOpen ! 0) \<le> LastUpdated (customers (fst (New_step afterOpen redAttributes)) ! 0) \<and>
   ingest afterOpen [redAttributes, blueAttributes] =
     Inr (afterOpen\<lparr>customers := [\<lparr>ID = 1, Attributes = [''color'' \<mapsto> ''blue''],
                                     Events = [''open'' \<mapsto> 1], LastUpdated = 20\<rparr>]\<rparr>) \<and>
   customerLinks afterOpen 1 = Some (int 0) \<and>
   LastUpdated (customers (fst (Update afterOpen 30 1 Map.empty)) ! nat 0) = 30"
proof -
  have p: "(0::nat) < length (customers afterOpen)" and lu: "LastUpdated (customers afterOpen ! 0) = 10"
    and link: "customerLinks afterOpen 1 = Some (int 0)"
    by (simp_all add: afterOpen_def)
  have run: "ingest afterOpen [redAttributes, blueAttributes] =
     Inr (afterOpen\<lparr>customers := [\<lparr>ID = 1, Attributes = [''color'' \<mapsto> ''blue''],
                                     Events = [''open'' \<mapsto> 1], LastUpdated = 20\<rparr>]\<rparr>)"
    by (simp add: ingest_eval afterOpen_def redAttributes_def blueAttributes_def)
  note inst = lastUpdated_monotone_on_ingest[of afterOpen redAttributes "[redAttributes, blueAttributes]" 30 1 Map.empty]
  from inst p have "LastUpdated (customers afterOpen ! 0) \<le> LastUpdated (customers (fst (New_step afterOpen redAttributes)) ! 0)"
    by blast
  moreover from inst link p have "LastUpdated (customers (fst (Update afterOpen 30 1 Map.empty)) ! nat 0) = 30"
    by simp
  ultimately show ?thesis using p lu run link by simp
qed

text \<open>
  C6 as stated fails at \<^verbatim>\<open>Update\<close>: customer 1, created by a record stamped 10, is
  updated when the clock reads 5, and its lastUpdated drops from 10 to 5.
\<close>

theorem lastUpdated_monotone_counterexample:
  "New [openEvent] = Inr afterOpen \<and>
   Get afterOpen 1 = Inr (customers afterOpen ! 0) \<and>
   LastUpdated (customers afterOpen ! 0) = 10 \<and>
   snd (Update afterOpen 5 1 Map.empty) = Inr (customers (fst (Update afterOpen 5 1 Map.empty)) ! 0) \<and>
   ID (customers (fst (Update afterOpen 5 1 Map.empty)) ! 0) = 1 \<and>
   LastUpdated (customers (fst (Update afterOpen 5 1 Map.empty)) ! 0) = 5"
  by (simp add: ingest_eval Get_def Update_def afterOpen_def openEvent_def)

text \<open>
  C7. Ingesting, into an empty store, an event \<open>open\<close> for user 1 at time 10, then
  attributes \<open>color = red\<close> for user 1 at time 5, then attributes \<open>color = blue\<close> for
  user 1 at time 20, succeeds and leaves exactly one customer: id 1, events
  \<open>{open: 1}\<close>, attributes \<open>{color: blue}\<close>, lastUpdated 20.
\<close>

theorem New_scenario:
  "New scenarioRecords =
     Inr \<lparr>customers = [\<lparr>ID = 1, Attributes = [''color'' \<mapsto> ''blue''],
                          Events = [''open'' \<mapsto> 1], LastUpdated = 20\<rparr>],
          customerLinks = [1 \<mapsto> 0],
          processedEventsMap = [''e1'' \<mapsto> True]\<rparr>"
  by (simp add: New_def emptyStore_def New_step_def isUserRegistered_def
      registerCustomerFromRecord_def processRecord_def setCustomer_def raiseLastUpdated_def
      Atoi_def atoiRange_def scenarioRecords_def openEvent_def redAttributes_def
      blueAttributes_def Let_def)

text \<open>
  C8. A record whose user id does not parse is skipped: the loop body returns the store
  exactly as it was (customers, links and processed set) and goes on, so the record can
  be struck from any input sequence without changing what \<^verbatim>\<open>New\<close> returns. The
  loop body never returns the parse error of \<^verbatim>\<open>processRecord\<close> (the
  \<^verbatim>\<open>return nil, err\<close> of line 52 is dead), and \<^verbatim>\<open>New\<close> returns a store for every
  input sequence: it neither fails nor panics.
\<close>

theorem unparsed_record_contributes_nothing:
  "(\<exists>store. New records = Inr store) \<and>
   snd (New_step s r) \<noteq> Some ErrAtoi \<and>
   (Atoi (UserID r) = None \<longrightarrow>
      New_step s r = (s, None) \<and> ingest s (r # rest) = ingest s rest \<and>
      New (before @ r # rest) = New (before @ rest))"
proof (intro conjI impI)
  from ingest_total[OF linksInBounds_emptyStore, of records]
  show "\<exists>store. New records = Inr store" by (auto simp add: New_def)
next
  show "snd (New_step s r) \<noteq> Some ErrAtoi"
  proof
    assume "snd (New_step s r) = Some ErrAtoi"
    then have "New_step s r = (fst (New_step s r), Some ErrAtoi)" by (simp add: prod_eq_iff)
    from New_step_error[OF this] show False by simp
  qed
next
  assume bad: "Atoi (UserID r) = None"
  then show step: "New_step s r = (s, None)" by (rule New_step_unparsed)
  show "ingest s (r # rest) = ingest s rest" by (simp add: New_step_unparsed[OF bad])
  show "New (before @ r # rest) = New (before @ rest)"
    by (simp add: New_def ingest_append New_step_unparsed[OF bad] split: sum.split)
qed

theorem unparsed_record_contributes_nothing_witness:
  "Atoi (UserID badUser) = None \<and>
   New_step afterOpen badUser = (afterOpen, None) \<and>
   New [openEvent, badUser, blueAttributes] = New [openEvent, blueAttributes] \<and>
   New [badUser] = Inr emptyStore"
proof -
  have bad: "Atoi (UserID badUser) = None" by (simp add: Atoi_def badUser_def)
  from unparsed_record_contributes_nothing[of "[badUser]" afterOpen badUser "[]" "[openEvent]"] bad
  have "New_step afterOpen badUser = (afterOpen, None)" by simp
  moreover
  from unparsed_record_contributes_nothing[of "[badUser]" afterOpen badUser "[blueAttributes]" "[openEvent]"] bad
  have "New [openEvent, badUser, blueAttributes] = New [openEvent, blueAttributes]" by simp
  moreover
  from unparsed_record_contributes_nothing[of "[]" emptyStore badUser "[]" "[]"] bad
  have "New [badUser] = Inr emptyStore" by (simp add: New_def)
  ultimately show ?thesis using bad by simp
qed

text \<open>
  C9. \<^verbatim>\<open>Create\<close> is meant to fail with "customer already exists" exactly when a
  customer with the id is stored. It tests the index, and after a \<^verbatim>\<open>Delete\<close> that left
  a stale link the index and the slice disagree. The calls \<open>Create(1, {})\<close>,
  \<open>Create(2, {})\<close>, \<open>Delete(1)\<close>, \<open>Create(3, {})\<close>, \<open>Delete(2)\<close> on the empty store
  all return without error and leave customer 2 alone in the slice, with id 3 as the only
  id of the index (\<open>Delete(2)\<close> followed the stale link of id 2 and removed customer 3).
  Then \<open>Create(2, {})\<close> succeeds although customer 2 is stored, and the slice holds two
  customers with id 2; \<open>Create(3, {})\<close> fails with "customer already exists" although no
  customer 3 is stored, and leaves the store as it was.
\<close>

theorem Create_on_stale_index:
  "snd (Create emptyStore 100 1 Map.empty) =
     Inr \<lparr>ID = 1, Attributes = Map.empty, Events = Map.empty, LastUpdated = 100\<rparr> \<and>
   snd (Create (fst (Create emptyStore 100 1 Map.empty)) 100 2 Map.empty) =
     Inr \<lparr>ID = 2, Attributes = Map.empty, Events = Map.empty, LastUpdated = 100\<rparr> \<and>
   snd (Delete twoCustomers 1) = None \<and>
   snd (Create afterDelete 100 3 Map.empty) =
     Inr \<lparr>ID = 3, Attributes = Map.empty, Events = Map.empty, LastUpdated = 100\<rparr> \<and>
   snd (Delete (fst (Create afterDelete 100 3 Map.empty)) 2) = None \<and>
   map ID (customers staleStore) = [2] \<and>
   customerLinks staleStore 2 = None \<and>
   customerLinks staleStore 3 = Some 1 \<and>
   snd (Create staleStore 100 2 Map.empty) =
     Inr \<lparr>ID = 2, Attributes = Map.empty, Events = Map.empty, LastUpdated = 100\<rparr> \<and>
   map ID (customers (fst (Create staleStore 100 2 Map.empty))) = [2, 2] \<and>
   Create staleStore 100 3 Map.empty = (staleStore, Inl ErrCustomerAlreadyExists)"
  by (simp add: crud_eval staleStore_def fixLinksLoop.simps)

text \<open>
  C10. \<^verbatim>\<open>List\<close> does not read \<open>page\<close> or \<open>count\<close>: for every store and every
  value of the two parameters it succeeds and returns the whole slice of customers in
  storage order, so any two calls on one store agree.
\<close>

theorem List_ignores_pagination:
  "List ds page count = Inr (customers ds) \<and> List ds page count = List ds page' count'"
  by (simp add: List_def)

end
